theory Spec2Isabelle
  imports Main "HOL-Library.Word"
begin

unbundle bit_operations_syntax

section \<open>The bus between the controller and the display\<close>

text \<open>
  The program is \<^verbatim>\<open>code1.c\<close>, which includes \<^verbatim>\<open>lcd.c\<close> after defining
  \<^verbatim>\<open>LCD_ENABLE_PIN\<close>, \<^verbatim>\<open>LCD_RS_PIN\<close>, \<^verbatim>\<open>LCD_RW_PIN\<close> and \<^verbatim>\<open>LCD_DATA4\<close> to
  \<^verbatim>\<open>LCD_DATA7\<close>, for a 16F887 (a mid-range part, so \<^verbatim>\<open>__PCB__\<close> is not defined).
  The embedding follows the branches of \<^verbatim>\<open>lcd.c\<close> that this configuration compiles:
  pin access for the three control lines and the four data lines. The port-access
  branches and the \<^verbatim>\<open>__PCB__\<close> branches are not part of the program and are not
  embedded.

  The compiler built-ins \<^verbatim>\<open>output_bit\<close>, \<^verbatim>\<open>output_float\<close>, \<^verbatim>\<open>output_drive\<close>,
  \<^verbatim>\<open>input\<close>, \<^verbatim>\<open>delay_cycles\<close>, \<^verbatim>\<open>delay_us\<close> and \<^verbatim>\<open>delay_ms\<close> are the
  program's only effects. Each call is recorded, in order, in a trace; the trace is
  the state that every driver function takes and returns. What \<^verbatim>\<open>input\<close> reads is
  decided by the display, which is outside the program: a device is any function
  from the operations performed so far and a pin to the level read on that pin.
  A \<^verbatim>\<open>BYTE\<close> and a \<^verbatim>\<open>char\<close> are unsigned 8-bit values.
\<close>

type_synonym byte = "8 word"

datatype pin =
  LCD_ENABLE_PIN | LCD_RS_PIN | LCD_RW_PIN | LCD_DATA4 | LCD_DATA5 | LCD_DATA6 | LCD_DATA7

datatype bus_op =
  Output_bit pin bool
| Output_float pin
| Output_drive pin
| Input pin bool
| Delay_cycles nat
| Delay_us nat
| Delay_ms nat

type_synonym trace = "bus_op list"

type_synonym device = "trace \<Rightarrow> pin \<Rightarrow> bool"

definition output_bit :: "pin \<Rightarrow> bool \<Rightarrow> trace \<Rightarrow> trace" where
  "output_bit p v tr = tr @ [Output_bit p v]"

definition output_float :: "pin \<Rightarrow> trace \<Rightarrow> trace" where
  "output_float p tr = tr @ [Output_float p]"

definition output_drive :: "pin \<Rightarrow> trace \<Rightarrow> trace" where
  "output_drive p tr = tr @ [Output_drive p]"

definition input :: "device \<Rightarrow> pin \<Rightarrow> trace \<Rightarrow> bool \<times> trace" where
  "input D p tr = (D tr p, tr @ [Input p (D tr p)])"

definition delay_cycles :: "nat \<Rightarrow> trace \<Rightarrow> trace" where
  "delay_cycles n tr = tr @ [Delay_cycles n]"

definition delay_us :: "nat \<Rightarrow> trace \<Rightarrow> trace" where
  "delay_us n tr = tr @ [Delay_us n]"

definition delay_ms :: "nat \<Rightarrow> trace \<Rightarrow> trace" where
  "delay_ms n tr = tr @ [Delay_ms n]"

text \<open>
  The three macros for the control lines, in their pin-access form
  \<^verbatim>\<open>output_bit(LCD_xx_PIN, x)\<close>. The argument is a \<^verbatim>\<open>BYTE\<close> in the source; every
  call of the program passes 0 or 1, and the line is driven high when it is not 0.
\<close>

definition lcd_output_enable :: "byte \<Rightarrow> trace \<Rightarrow> trace" where
  "lcd_output_enable x = output_bit LCD_ENABLE_PIN (x \<noteq> 0)"

definition lcd_output_rs :: "byte \<Rightarrow> trace \<Rightarrow> trace" where
  "lcd_output_rs x = output_bit LCD_RS_PIN (x \<noteq> 0)"

definition lcd_output_rw :: "byte \<Rightarrow> trace \<Rightarrow> trace" where
  "lcd_output_rw x = output_bit LCD_RW_PIN (x \<noteq> 0)"

definition lcd_enable_tris :: "trace \<Rightarrow> trace" where
  "lcd_enable_tris = output_drive LCD_ENABLE_PIN"

definition lcd_rs_tris :: "trace \<Rightarrow> trace" where
  "lcd_rs_tris = output_drive LCD_RS_PIN"

definition lcd_rw_tris :: "trace \<Rightarrow> trace" where
  "lcd_rw_tris = output_drive LCD_RW_PIN"

definition LCD_TYPE :: byte where
  "LCD_TYPE = 2"

definition LCD_LINE_TWO :: byte where
  "LCD_LINE_TWO = 0x40"

definition LCD_INIT_STRING :: "byte list" where
  "LCD_INIT_STRING = [0x20 OR push_bit 2 LCD_TYPE, 0xc, 1, 6]"

section \<open>The driver: \<^verbatim>\<open>lcd.c\<close>\<close>

definition lcd_read_nibble :: "device \<Rightarrow> trace \<Rightarrow> byte \<times> trace" where
  "lcd_read_nibble D tr =
    (let n = 0x00;
         (b, tr) = input D LCD_DATA4 tr; n = n OR of_bool b;
         (b, tr) = input D LCD_DATA5 tr; n = n OR push_bit 1 (of_bool b);
         (b, tr) = input D LCD_DATA6 tr; n = n OR push_bit 2 (of_bool b);
         (b, tr) = input D LCD_DATA7 tr; n = n OR push_bit 3 (of_bool b)
     in (n, tr))"

definition lcd_read_byte :: "device \<Rightarrow> trace \<Rightarrow> byte \<times> trace" where
  "lcd_read_byte D tr =
    (let tr = output_float LCD_DATA4 tr;
         tr = output_float LCD_DATA5 tr;
         tr = output_float LCD_DATA6 tr;
         tr = output_float LCD_DATA7 tr;
         tr = lcd_output_rw 1 tr;
         tr = delay_cycles 1 tr;
         tr = lcd_output_enable 1 tr;
         tr = delay_cycles 1 tr;
         (high, tr) = lcd_read_nibble D tr;
         tr = lcd_output_enable 0 tr;
         tr = delay_cycles 1 tr;
         tr = lcd_output_enable 1 tr;
         tr = delay_us 1 tr;
         (low, tr) = lcd_read_nibble D tr;
         tr = lcd_output_enable 0 tr;
         tr = output_drive LCD_DATA4 tr;
         tr = output_drive LCD_DATA5 tr;
         tr = output_drive LCD_DATA6 tr;
         tr = output_drive LCD_DATA7 tr
     in (push_bit 4 high OR low, tr))"

definition lcd_send_nibble :: "byte \<Rightarrow> trace \<Rightarrow> trace" where
  "lcd_send_nibble n tr =
    (let tr = output_bit LCD_DATA4 (bit n 0) tr;
         tr = output_bit LCD_DATA5 (bit n 1) tr;
         tr = output_bit LCD_DATA6 (bit n 2) tr;
         tr = output_bit LCD_DATA7 (bit n 3) tr;
         tr = delay_cycles 1 tr;
         tr = lcd_output_enable 1 tr;
         tr = delay_us 2 tr;
         tr = lcd_output_enable 0 tr
     in tr)"

text \<open>
  The loop \<^verbatim>\<open>while ( bit_test(lcd_read_byte(),7) ) ;\<close> of \<^verbatim>\<open>lcd_send_byte\<close> and
  \<^verbatim>\<open>lcd_getc\<close>. It has no bound, so it is a partial function: \<open>None\<close> means that
  the loop never ends.
\<close>

partial_function (option) busy_wait :: "device \<Rightarrow> trace \<Rightarrow> trace option" where
  "busy_wait D tr =
    (case lcd_read_byte D tr of (b, tr') \<Rightarrow> if bit b 7 then busy_wait D tr' else Some tr')"

declare busy_wait.simps [code]

definition lcd_send_byte :: "device \<Rightarrow> byte \<Rightarrow> byte \<Rightarrow> trace \<Rightarrow> trace option" where
  "lcd_send_byte D address n tr =
    (let tr = lcd_output_rs 0 tr
     in case busy_wait D tr of
          None \<Rightarrow> None
        | Some tr \<Rightarrow>
           (let tr = lcd_output_rs address tr;
                tr = delay_cycles 1 tr;
                tr = lcd_output_rw 0 tr;
                tr = delay_cycles 1 tr;
                tr = lcd_output_enable 0 tr;
                tr = lcd_send_nibble (drop_bit 4 n) tr;
                tr = lcd_send_nibble (n AND 0xf) tr
            in Some tr))"

text \<open>The two \<^verbatim>\<open>for\<close> loops of \<^verbatim>\<open>lcd_init\<close>, over the counter \<^verbatim>\<open>i\<close>.\<close>

function lcd_init_wake :: "nat \<Rightarrow> trace \<Rightarrow> trace" where
  "lcd_init_wake i tr =
    (if i \<le> 3 then lcd_init_wake (i + 1) (delay_ms 5 (lcd_send_nibble 3 tr)) else tr)"
  by pat_completeness auto
termination
  by (relation "measure (\<lambda>(i, tr). 4 - i)") auto

function lcd_init_string :: "device \<Rightarrow> nat \<Rightarrow> trace \<Rightarrow> trace option" where
  "lcd_init_string D i tr =
    (if i \<le> 3 then
       (case lcd_send_byte D 0 (LCD_INIT_STRING ! i) tr of
          None \<Rightarrow> None
        | Some tr \<Rightarrow> lcd_init_string D (i + 1) tr)
     else Some tr)"
  by pat_completeness auto
termination
  by (relation "measure (\<lambda>(D, i, tr). 4 - i)") auto

definition lcd_init :: "device \<Rightarrow> trace \<Rightarrow> trace option" where
  "lcd_init D tr =
    (let tr = output_drive LCD_DATA4 tr;
         tr = output_drive LCD_DATA5 tr;
         tr = output_drive LCD_DATA6 tr;
         tr = output_drive LCD_DATA7 tr;
         tr = lcd_enable_tris tr;
         tr = lcd_rs_tris tr;
         tr = lcd_rw_tris tr;
         tr = lcd_output_rs 0 tr;
         tr = lcd_output_rw 0 tr;
         tr = lcd_output_enable 0 tr;
         tr = delay_ms 15 tr;
         tr = lcd_init_wake 1 tr;
         tr = lcd_send_nibble 2 tr
     in lcd_init_string D 0 tr)"

definition lcd_gotoxy :: "device \<Rightarrow> byte \<Rightarrow> byte \<Rightarrow> trace \<Rightarrow> trace option" where
  "lcd_gotoxy D x y tr =
    (let address = (if y \<noteq> 1 then LCD_LINE_TWO else 0);
         address = address + (x - 1)
     in lcd_send_byte D 0 (0x80 OR address) tr)"

definition lcd_putc :: "device \<Rightarrow> byte \<Rightarrow> trace \<Rightarrow> trace option" where
  "lcd_putc D c tr =
    (if c = 0x0C then
       (case lcd_send_byte D 0 1 tr of None \<Rightarrow> None | Some tr \<Rightarrow> Some (delay_ms 2 tr))
     else if c = 0x0A then lcd_gotoxy D 1 2 tr
     else if c = 0x08 then lcd_send_byte D 0 0x10 tr
     else lcd_send_byte D 1 c tr)"

definition lcd_getc :: "device \<Rightarrow> byte \<Rightarrow> byte \<Rightarrow> trace \<Rightarrow> (byte \<times> trace) option" where
  "lcd_getc D x y tr =
    (case lcd_gotoxy D x y tr of
       None \<Rightarrow> None
     | Some tr \<Rightarrow>
        (case busy_wait D tr of
           None \<Rightarrow> None
         | Some tr \<Rightarrow>
            (let tr = lcd_output_rs 1 tr;
                 (value, tr) = lcd_read_byte D tr;
                 tr = lcd_output_rs 0 tr
             in Some (value, tr))))"

section \<open>The card comparison: \<^verbatim>\<open>code1.c\<close>\<close>

text \<open>
  \<^verbatim>\<open>QUET_THE\<close> writes the global \<^verbatim>\<open>THE_1\<close> in every round of its loop and returns
  it. The global is passed in and returned with the result. The arrays are lists;
  the loop reads indices 0 to 3 of both.
\<close>

definition DATA_TRUNG :: "byte list" where
  "DATA_TRUNG = [0xD3, 0x4D, 0xFC, 0x27]"

definition DATA_HUY :: "byte list" where
  "DATA_HUY = [0x73, 0x9F, 0x6F, 0x13]"

function QUET_THE_loop :: "nat \<Rightarrow> byte list \<Rightarrow> byte list \<Rightarrow> bool \<Rightarrow> bool" where
  "QUET_THE_loop i DATA UID THE_1 =
    (if i < 4 then
       (if UID ! i = DATA ! i then QUET_THE_loop (i + 1) DATA UID True
        else False)
     else THE_1)"
  by pat_completeness auto
termination
  by (relation "measure (\<lambda>(i, DATA, UID, THE_1). 4 - i)") auto

definition QUET_THE :: "byte list \<Rightarrow> byte list \<Rightarrow> bool \<Rightarrow> bool \<times> bool" where
  "QUET_THE DATA UID THE_1 =
    (let THE_1 = QUET_THE_loop 0 DATA UID THE_1 in (THE_1, THE_1))"

section \<open>What the bus sees\<close>

text \<open>
  The operations that one call of each transfer primitive appends to the trace,
  written out. \<open>read_byte_ops h l\<close> is one run of \<^verbatim>\<open>lcd_read_byte\<close> in which the
  display answered with the bits 0 to 3 of \<open>h\<close> and then of \<open>l\<close>; \<open>transfer_ops\<close> is
  the part of \<^verbatim>\<open>lcd_send_byte\<close> that follows its loop.
\<close>

definition read_nibble_ops :: "byte \<Rightarrow> trace" where
  "read_nibble_ops n =
    [Input LCD_DATA4 (bit n 0), Input LCD_DATA5 (bit n 1),
     Input LCD_DATA6 (bit n 2), Input LCD_DATA7 (bit n 3)]"

definition read_pre_ops :: trace where
  "read_pre_ops =
    [Output_float LCD_DATA4, Output_float LCD_DATA5, Output_float LCD_DATA6,
     Output_float LCD_DATA7, Output_bit LCD_RW_PIN True, Delay_cycles 1,
     Output_bit LCD_ENABLE_PIN True, Delay_cycles 1]"

definition read_mid_ops :: trace where
  "read_mid_ops =
    [Output_bit LCD_ENABLE_PIN False, Delay_cycles 1, Output_bit LCD_ENABLE_PIN True,
     Delay_us 1]"

definition read_post_ops :: trace where
  "read_post_ops =
    [Output_bit LCD_ENABLE_PIN False, Output_drive LCD_DATA4, Output_drive LCD_DATA5,
     Output_drive LCD_DATA6, Output_drive LCD_DATA7]"

definition read_byte_ops :: "byte \<Rightarrow> byte \<Rightarrow> trace" where
  "read_byte_ops h l =
    read_pre_ops @ read_nibble_ops h @ read_mid_ops @ read_nibble_ops l @ read_post_ops"

text \<open>
  \<open>read_ops b\<close> is a run of \<^verbatim>\<open>lcd_read_byte\<close> that returns the byte \<open>b\<close>: the
  eight levels read are the bits of \<open>b\<close>, bit 7 on \<^verbatim>\<open>LCD_DATA7\<close> in the first
  nibble. \<open>read_blocks\<close> is a sequence of such runs.
\<close>

definition read_ops :: "byte \<Rightarrow> trace" where
  "read_ops b = read_byte_ops (drop_bit 4 b) (b AND 0xf)"

fun read_blocks :: "byte list \<Rightarrow> trace" where
  "read_blocks [] = []"
| "read_blocks (b # bs) = read_ops b @ read_blocks bs"

definition send_nibble_ops :: "byte \<Rightarrow> trace" where
  "send_nibble_ops n =
    [Output_bit LCD_DATA4 (bit n 0), Output_bit LCD_DATA5 (bit n 1),
     Output_bit LCD_DATA6 (bit n 2), Output_bit LCD_DATA7 (bit n 3),
     Delay_cycles 1, Output_bit LCD_ENABLE_PIN True, Delay_us 2,
     Output_bit LCD_ENABLE_PIN False]"

definition transfer_ops :: "byte \<Rightarrow> byte \<Rightarrow> trace" where
  "transfer_ops address n =
    [Output_bit LCD_RS_PIN (address \<noteq> 0), Delay_cycles 1, Output_bit LCD_RW_PIN False,
     Delay_cycles 1, Output_bit LCD_ENABLE_PIN False] @
    send_nibble_ops (drop_bit 4 n) @ send_nibble_ops (n AND 0xf)"

text \<open>
  An operation that drives a data line or the register-select line: \<^verbatim>\<open>output_bit\<close>,
  which sets the level of the pin, and \<^verbatim>\<open>output_drive\<close>, which makes the pin an
  output at the level it had.
\<close>

fun drives_data_or_rs :: "bus_op \<Rightarrow> bool" where
  "drives_data_or_rs (Output_bit p v) = (p \<noteq> LCD_ENABLE_PIN \<and> p \<noteq> LCD_RW_PIN)"
| "drives_data_or_rs (Output_drive p) = (p \<noteq> LCD_ENABLE_PIN \<and> p \<noteq> LCD_RW_PIN)"
| "drives_data_or_rs _ = False"

text \<open>
  The state of the loop after \<open>k\<close> reads, and whether the read that follows
  them finds the busy flag (bit 7) set.
\<close>

primrec polls :: "device \<Rightarrow> nat \<Rightarrow> trace \<Rightarrow> trace" where
  "polls D 0 tr = tr"
| "polls D (Suc k) tr = polls D k (snd (lcd_read_byte D tr))"

definition busy_at :: "device \<Rightarrow> nat \<Rightarrow> trace \<Rightarrow> bool" where
  "busy_at D k tr = bit (fst (lcd_read_byte D (polls D k tr))) 7"

text \<open>The byte that the read after \<open>k\<close> reads returns.\<close>

definition poll_byte :: "device \<Rightarrow> trace \<Rightarrow> nat \<Rightarrow> byte" where
  "poll_byte D tr k = fst (lcd_read_byte D (polls D k tr))"

text \<open>
  An observer of the bus, in the place of the display: it follows the levels that
  the controller drives on the seven lines and records a nibble, with the level of
  register-select, at every falling edge of Enable while read/write is low. Two
  nibbles make a byte, the high one first.
\<close>

record lines =
  line_enable :: bool
  line_rs :: bool
  line_rw :: bool
  line_d4 :: bool
  line_d5 :: bool
  line_d6 :: bool
  line_d7 :: bool

fun set_line :: "pin \<Rightarrow> bool \<Rightarrow> lines \<Rightarrow> lines" where
  "set_line LCD_ENABLE_PIN v L = L\<lparr>line_enable := v\<rparr>"
| "set_line LCD_RS_PIN v L = L\<lparr>line_rs := v\<rparr>"
| "set_line LCD_RW_PIN v L = L\<lparr>line_rw := v\<rparr>"
| "set_line LCD_DATA4 v L = L\<lparr>line_d4 := v\<rparr>"
| "set_line LCD_DATA5 v L = L\<lparr>line_d5 := v\<rparr>"
| "set_line LCD_DATA6 v L = L\<lparr>line_d6 := v\<rparr>"
| "set_line LCD_DATA7 v L = L\<lparr>line_d7 := v\<rparr>"

definition all_low :: lines where
  "all_low = \<lparr>line_enable = False, line_rs = False, line_rw = False, line_d4 = False,
     line_d5 = False, line_d6 = False, line_d7 = False\<rparr>"

definition data_nibble :: "lines \<Rightarrow> byte" where
  "data_nibble L = of_bool (line_d4 L) OR push_bit 1 (of_bool (line_d5 L)) OR
     push_bit 2 (of_bool (line_d6 L)) OR push_bit 3 (of_bool (line_d7 L))"

fun levels :: "lines \<Rightarrow> trace \<Rightarrow> lines" where
  "levels L [] = L"
| "levels L (Output_bit p v # evs) = levels (set_line p v L) evs"
| "levels L (_ # evs) = levels L evs"

fun bus_nibbles :: "lines \<Rightarrow> trace \<Rightarrow> (bool \<times> byte) list" where
  "bus_nibbles L [] = []"
| "bus_nibbles L (Output_bit p v # evs) =
    (if p = LCD_ENABLE_PIN \<and> line_enable L \<and> \<not> v \<and> \<not> line_rw L
     then [(line_rs L, data_nibble L)] else []) @ bus_nibbles (set_line p v L) evs"
| "bus_nibbles L (_ # evs) = bus_nibbles L evs"

fun bus_bytes :: "(bool \<times> byte) list \<Rightarrow> (bool \<times> byte) list" where
  "bus_bytes ((r, h) # (r', l) # ns) = (r', push_bit 4 h OR l) # bus_bytes ns"
| "bus_bytes _ = []"

text \<open>
  The direction of a pin. \<^verbatim>\<open>output_float\<close> and \<^verbatim>\<open>output_drive\<close> set it; in the
  compiler's standard I/O mode, which \<^verbatim>\<open>code1.c\<close> does not change, \<^verbatim>\<open>output_bit\<close>
  and \<^verbatim>\<open>input\<close> also set the direction of their own pin.
\<close>

datatype direction = Driving | Floating

fun direction_after :: "bus_op \<Rightarrow> pin \<Rightarrow> direction \<Rightarrow> direction" where
  "direction_after (Output_float q) p d = (if q = p then Floating else d)"
| "direction_after (Output_drive q) p d = (if q = p then Driving else d)"
| "direction_after (Output_bit q v) p d = (if q = p then Driving else d)"
| "direction_after (Input q v) p d = (if q = p then Floating else d)"
| "direction_after _ p d = d"

fun pin_direction :: "direction \<Rightarrow> pin \<Rightarrow> trace \<Rightarrow> direction" where
  "pin_direction d p [] = d"
| "pin_direction d p (e # evs) = pin_direction (direction_after e p d) p evs"

definition data_pins :: "pin list" where
  "data_pins = [LCD_DATA4, LCD_DATA5, LCD_DATA6, LCD_DATA7]"

text \<open>Two displays for concrete runs: one that reads 0 on every line, one that reads 1.\<close>

definition idle_device :: device where
  "idle_device tr p = False"

definition stuck_device :: device where
  "stuck_device tr p = True"

text \<open>
  A display that holds data line 7 high until that line has been read \<open>2 * n\<close>
  times, and low from then on: it answers the first \<open>n\<close> runs of \<^verbatim>\<open>lcd_read_byte\<close>
  with bit 7 set and every later one with 0.
\<close>

fun d7_inputs :: "trace \<Rightarrow> nat" where
  "d7_inputs [] = 0"
| "d7_inputs (Input p v # evs) = (if p = LCD_DATA7 then 1 else 0) + d7_inputs evs"
| "d7_inputs (_ # evs) = d7_inputs evs"

definition busy_device :: "nat \<Rightarrow> device" where
  "busy_device n tr p = (p = LCD_DATA7 \<and> d7_inputs tr < 2 * n)"

text \<open>
  The address of a cursor position as the specification gives it: the offset of
  the row, 0 for row 1 and 0x40 for row 2, plus the column counted from 1.
\<close>

definition spec_offset :: "nat \<Rightarrow> nat" where
  "spec_offset row = (if row = 2 then 0x40 else 0)"

definition spec_address :: "nat \<Rightarrow> nat \<Rightarrow> nat" where
  "spec_address column row = spec_offset row + column - 1"

text \<open>
  The nibbles and the bytes that a call puts on the bus: \<open>tr\<close> is the trace at the
  call and \<open>r\<close> what the call returns, \<open>None\<close> when it does not return.
\<close>

definition sent_nibbles :: "lines \<Rightarrow> trace \<Rightarrow> trace option \<Rightarrow> (bool \<times> byte) list option" where
  "sent_nibbles L tr r =
    map_option (\<lambda>tr'. drop (length (bus_nibbles L tr)) (bus_nibbles L tr')) r"

definition sent_bytes :: "lines \<Rightarrow> trace \<Rightarrow> trace option \<Rightarrow> (bool \<times> byte) list option" where
  "sent_bytes L tr r = map_option bus_bytes (sent_nibbles L tr r)"

text \<open>
  The command that \<^verbatim>\<open>lcd_putc\<close> sends for \<^verbatim>\<open>'\f'\<close>, which \<^verbatim>\<open>lcd.c\<close> documents as
  ``Clear display''.
\<close>

definition clear_display :: byte where
  "clear_display = 1"

text \<open>
  The operations of \<^verbatim>\<open>lcd_init\<close> that come before its loop over
  \<^verbatim>\<open>LCD_INIT_STRING\<close>.
\<close>

definition init_prefix_ops :: trace where
  "init_prefix_ops =
    [Output_drive LCD_DATA4, Output_drive LCD_DATA5, Output_drive LCD_DATA6,
     Output_drive LCD_DATA7, Output_drive LCD_ENABLE_PIN, Output_drive LCD_RS_PIN,
     Output_drive LCD_RW_PIN, Output_bit LCD_RS_PIN False, Output_bit LCD_RW_PIN False,
     Output_bit LCD_ENABLE_PIN False, Delay_ms 15] @
    send_nibble_ops 3 @ [Delay_ms 5] @ send_nibble_ops 3 @ [Delay_ms 5] @
    send_nibble_ops 3 @ [Delay_ms 5] @ send_nibble_ops 2"

text \<open>
  A valid position is a row of 1 or 2 with a column from 1 to 0x40, so that the
  address stays within the row's range of the seven address bits. A printable
  character is a code of printable ASCII.
\<close>

definition valid_position :: "byte \<Rightarrow> byte \<Rightarrow> bool" where
  "valid_position x y = ((y = 1 \<or> y = 2) \<and> 1 \<le> unat x \<and> unat x \<le> 0x40)"

definition printable :: "byte \<Rightarrow> bool" where
  "printable c = (0x20 \<le> c \<and> c \<le> 0x7e)"


section \<open>A model of the display\<close>

text \<open>
  Modelled from the spec: the display controller, which is hardware outside the
  repository. The specification describes it through the driver: an Enable strobe
  latches the nibble on the data lines, the high nibble of a byte first;
  register-select chooses between the command register and the character RAM; the
  command \<open>0x80 | address\<close> sets the address; a read of the command register gives
  the busy flag in bit 7 and the address in bits 0 to 6; a read of the data register
  gives the character at the address; command 0x01 blanks the RAM and command 0x10
  moves the address back by one. The model follows these sentences. While read/write
  is high, a rising edge of Enable puts the next nibble of the addressed register on
  the data lines; while it is low, a falling edge of Enable latches a nibble. The
  display stays busy for \<open>mem_latency\<close> reads of the command register after each
  byte it accepts, and ignores a byte that arrives while it is busy.
\<close>

record memory =
  mem_addr :: byte
  mem_ram :: "byte \<Rightarrow> byte"
  mem_busy :: nat
  mem_latency :: nat

record display =
  dsp_lines :: lines
  dsp_high :: "byte option"
  dsp_low :: "byte option"
  dsp_out :: byte
  dsp_mem :: memory

definition dsp_execute :: "bool \<Rightarrow> byte \<Rightarrow> memory \<Rightarrow> memory" where
  "dsp_execute rs b m =
    (if 0 < mem_busy m then m
     else if rs then
       m\<lparr>mem_ram := (mem_ram m)(mem_addr m := b), mem_addr := (mem_addr m + 1) AND 0x7f,
         mem_busy := mem_latency m\<rparr>
     else if bit b 7 then m\<lparr>mem_addr := b AND 0x7f, mem_busy := mem_latency m\<rparr>
     else if b = 1 then
       m\<lparr>mem_ram := (\<lambda>a. 0x20), mem_addr := 0, mem_busy := mem_latency m\<rparr>
     else if b = 0x10 then
       m\<lparr>mem_addr := (mem_addr m - 1) AND 0x7f, mem_busy := mem_latency m\<rparr>
     else m\<lparr>mem_busy := mem_latency m\<rparr>)"

definition dsp_register :: "bool \<Rightarrow> memory \<Rightarrow> byte" where
  "dsp_register rs m =
    (if rs then mem_ram m (mem_addr m)
     else (if 0 < mem_busy m then 0x80 else 0) OR (mem_addr m AND 0x7f))"

text \<open>What a completed read leaves behind: a status read uses up one step of the
  busy period, a data read moves the address on.\<close>

definition dsp_read_done :: "bool \<Rightarrow> memory \<Rightarrow> memory" where
  "dsp_read_done rs m =
    (if rs then m\<lparr>mem_addr := (mem_addr m + 1) AND 0x7f\<rparr>
     else m\<lparr>mem_busy := mem_busy m - 1\<rparr>)"

definition dsp_enable_rises :: "display \<Rightarrow> display" where
  "dsp_enable_rises d =
    (if line_rw (dsp_lines d) then
       (case dsp_low d of
          None \<Rightarrow>
            d\<lparr>dsp_out := drop_bit 4 (dsp_register (line_rs (dsp_lines d)) (dsp_mem d)),
              dsp_low := Some (dsp_register (line_rs (dsp_lines d)) (dsp_mem d) AND 0xf)\<rparr>
        | Some l \<Rightarrow>
            d\<lparr>dsp_out := l, dsp_low := None,
              dsp_mem := dsp_read_done (line_rs (dsp_lines d)) (dsp_mem d)\<rparr>)
     else d)"

definition dsp_enable_falls :: "display \<Rightarrow> display" where
  "dsp_enable_falls d =
    (if line_rw (dsp_lines d) then d
     else
       (case dsp_high d of
          None \<Rightarrow> d\<lparr>dsp_high := Some (data_nibble (dsp_lines d))\<rparr>
        | Some h \<Rightarrow>
            d\<lparr>dsp_high := None,
              dsp_mem := dsp_execute (line_rs (dsp_lines d))
                (push_bit 4 h OR data_nibble (dsp_lines d)) (dsp_mem d)\<rparr>))"

fun display_step :: "display \<Rightarrow> bus_op \<Rightarrow> display" where
  "display_step d (Output_bit p v) =
    (let d' = (if p = LCD_ENABLE_PIN \<and> v \<and> \<not> line_enable (dsp_lines d)
               then dsp_enable_rises d
               else if p = LCD_ENABLE_PIN \<and> \<not> v \<and> line_enable (dsp_lines d)
               then dsp_enable_falls d
               else d)
     in d'\<lparr>dsp_lines := set_line p v (dsp_lines d')\<rparr>)"
| "display_step d _ = d"

definition display_state :: "display \<Rightarrow> trace \<Rightarrow> display" where
  "display_state d0 tr = foldl display_step d0 tr"

fun display_pin :: "display \<Rightarrow> pin \<Rightarrow> bool" where
  "display_pin d LCD_DATA4 =
    (line_rw (dsp_lines d) \<and> line_enable (dsp_lines d) \<and> bit (dsp_out d) 0)"
| "display_pin d LCD_DATA5 =
    (line_rw (dsp_lines d) \<and> line_enable (dsp_lines d) \<and> bit (dsp_out d) 1)"
| "display_pin d LCD_DATA6 =
    (line_rw (dsp_lines d) \<and> line_enable (dsp_lines d) \<and> bit (dsp_out d) 2)"
| "display_pin d LCD_DATA7 =
    (line_rw (dsp_lines d) \<and> line_enable (dsp_lines d) \<and> bit (dsp_out d) 3)"
| "display_pin d _ = False"

definition display_device :: "display \<Rightarrow> device" where
  "display_device d0 tr p = display_pin (display_state d0 tr) p"

text \<open>
  The display is ready when it is between two transfers: Enable is low and no
  nibble of a byte is pending in either direction.
\<close>

definition display_ready :: "display \<Rightarrow> bool" where
  "display_ready d =
    (\<not> line_enable (dsp_lines d) \<and> dsp_high d = None \<and> dsp_low d = None)"

definition display_power_on :: "nat \<Rightarrow> display" where
  "display_power_on latency =
    \<lparr>dsp_lines = all_low, dsp_high = None, dsp_low = None, dsp_out = 0,
     dsp_mem = \<lparr>mem_addr = 0, mem_ram = (\<lambda>a. 0x20), mem_busy = 0,
       mem_latency = latency\<rparr>\<rparr>"

section \<open>The trace of each primitive\<close>

lemmas read_ops_defs = read_byte_ops_def read_pre_ops_def read_mid_ops_def read_post_ops_def

lemma nibble_bits:
  "bit (of_bool b0 OR push_bit 1 (of_bool b1) OR push_bit 2 (of_bool b2) OR push_bit 3 (of_bool b3) :: byte) 0 = b0"
  "bit (of_bool b0 OR push_bit 1 (of_bool b1) OR push_bit 2 (of_bool b2) OR push_bit 3 (of_bool b3) :: byte) 1 = b1"
  "bit (of_bool b0 OR push_bit 1 (of_bool b1) OR push_bit 2 (of_bool b2) OR push_bit 3 (of_bool b3) :: byte) 2 = b2"
  "bit (of_bool b0 OR push_bit 1 (of_bool b1) OR push_bit 2 (of_bool b2) OR push_bit 3 (of_bool b3) :: byte) 3 = b3"
  by (simp_all add: bit_simps)

lemma lcd_read_nibble_ops:
  "\<exists>n. lcd_read_nibble D tr = (n, tr @ read_nibble_ops n) \<and> n AND 0xF = n"
  by (simp add: lcd_read_nibble_def input_def Let_def read_nibble_ops_def nibble_bits)

lemma lcd_send_nibble_ops: "lcd_send_nibble n tr = tr @ send_nibble_ops n"
  by (simp add: lcd_send_nibble_def send_nibble_ops_def Let_def output_bit_def
      delay_cycles_def delay_us_def lcd_output_enable_def)

lemma lcd_read_byte_ops:
  "\<exists>h l. lcd_read_byte D tr = (push_bit 4 h OR l, tr @ read_byte_ops h l) \<and> h AND 0xF = h \<and> l AND 0xF = l"
proof -
  let ?t1 = "tr @ [Output_float LCD_DATA4, Output_float LCD_DATA5, Output_float LCD_DATA6,
     Output_float LCD_DATA7, Output_bit LCD_RW_PIN True, Delay_cycles 1,
     Output_bit LCD_ENABLE_PIN True, Delay_cycles 1]"
  obtain h where h: "lcd_read_nibble D ?t1 = (h, ?t1 @ read_nibble_ops h)" "h AND 0xF = h"
    using lcd_read_nibble_ops by blast
  let ?t2 = "?t1 @ read_nibble_ops h @ [Output_bit LCD_ENABLE_PIN False, Delay_cycles 1, Output_bit LCD_ENABLE_PIN True,
     Delay_us 1]"
  obtain l where l: "lcd_read_nibble D ?t2 = (l, ?t2 @ read_nibble_ops l)" "l AND 0xF = l"
    using lcd_read_nibble_ops by blast
  have "lcd_read_byte D tr = (push_bit 4 h OR l, tr @ read_byte_ops h l)"
    using h(1) l(1)
    by (simp add: lcd_read_byte_def Let_def output_float_def output_drive_def output_bit_def
      delay_cycles_def delay_us_def lcd_output_enable_def lcd_output_rw_def read_ops_defs)
  with h(2) l(2) show ?thesis by blast
qed

lemma busy_wait_unfold:
  "busy_wait D tr =
    (if busy_at D 0 tr then busy_wait D (polls D 1 tr) else Some (polls D 1 tr))"
  by (subst busy_wait.simps) (simp add: busy_at_def split_def)

lemma busy_wait_complete:
  "\<lbrakk>\<forall>j<k. busy_at D j tr; \<not> busy_at D k tr\<rbrakk> \<Longrightarrow> busy_wait D tr = Some (polls D (Suc k) tr)"
proof (induction k arbitrary: tr)
  case 0
  then show ?case by (subst busy_wait_unfold) simp
next
  case (Suc k)
  let ?tr = "snd (lcd_read_byte D tr)"
  have shift: "busy_at D j ?tr = busy_at D (Suc j) tr" for j
    by (simp add: busy_at_def)
  from Suc.prems have "\<forall>j<k. busy_at D j ?tr" "\<not> busy_at D k ?tr"
    by (auto simp: shift)
  then have "busy_wait D ?tr = Some (polls D (Suc k) ?tr)"
    by (rule Suc.IH)
  moreover from Suc.prems have "busy_at D 0 tr" by blast
  ultimately show ?case
    by (subst busy_wait_unfold) simp
qed

lemma busy_wait_sound:
  assumes "busy_wait D tr = Some tr'"
  shows "\<exists>k. (\<forall>j<k. busy_at D j tr) \<and> \<not> busy_at D k tr \<and> tr' = polls D (Suc k) tr"
proof (rule busy_wait.raw_induct [rotated, OF assms])
  fix f :: "device \<Rightarrow> trace \<Rightarrow> trace option" and D tr tr'
  assume IH: "\<And>D tr tr'. f D tr = Some tr' \<Longrightarrow>
      \<exists>k. (\<forall>j<k. busy_at D j tr) \<and> \<not> busy_at D k tr \<and> tr' = polls D (Suc k) tr"
    and step: "(case lcd_read_byte D tr of
        (b, tr') \<Rightarrow> if bit b 7 then f D tr' else Some tr') = Some tr'"
  show "\<exists>k. (\<forall>j<k. busy_at D j tr) \<and> \<not> busy_at D k tr \<and> tr' = polls D (Suc k) tr"
  proof (cases "busy_at D 0 tr")
    case False
    with step have "tr' = polls D (Suc 0) tr"
      by (simp add: busy_at_def split_def)
    with False show ?thesis by blast
  next
    case True
    let ?tr = "snd (lcd_read_byte D tr)"
    from True step have "f D ?tr = Some tr'"
      by (simp add: busy_at_def split_def)
    then obtain k where k: "\<forall>j<k. busy_at D j ?tr" "\<not> busy_at D k ?tr" "tr' = polls D (Suc k) ?tr"
      using IH by blast
    have shift: "busy_at D j ?tr = busy_at D (Suc j) tr" for j
      by (simp add: busy_at_def)
    have "\<forall>j<Suc k. busy_at D j tr"
      using True k(1) by (auto simp: shift less_Suc_eq_0_disj)
    moreover have "\<not> busy_at D (Suc k) tr" using k(2) by (simp add: shift)
    moreover have "tr' = polls D (Suc (Suc k)) tr" using k(3) by simp
    ultimately show ?thesis by blast
  qed
qed

lemma busy_wait_terminates_iff:
  "busy_wait D tr \<noteq> None \<longleftrightarrow> (\<exists>k. \<not> busy_at D k tr)"
proof
  assume "busy_wait D tr \<noteq> None"
  then show "\<exists>k. \<not> busy_at D k tr" using busy_wait_sound by blast
next
  assume "\<exists>k. \<not> busy_at D k tr"
  then obtain k where k: "\<not> busy_at D k tr" "\<forall>j<k. busy_at D j tr"
    using exists_least_iff [of "\<lambda>k. \<not> busy_at D k tr"] by auto
  then show "busy_wait D tr \<noteq> None"
    using busy_wait_complete [of k D tr] by simp
qed

lemma split_nibbles:
  assumes "h AND 0xf = h" and "l AND 0xf = l"
  shows "drop_bit 4 (push_bit 4 h OR l) = (h :: byte)" and "(push_bit 4 h OR l) AND 0xf = l"
proof -
  have m: "(0xf :: byte) = mask 4" by (simp add: mask_eq_exp_minus_1)
  have h: "bit h n \<Longrightarrow> n < 4" for n
    using assms(1) unfolding m by (metis bit_take_bit_iff take_bit_eq_mask)
  have l: "bit l n \<Longrightarrow> n < 4" for n
    using assms(2) unfolding m by (metis bit_take_bit_iff take_bit_eq_mask)
  show "drop_bit 4 (push_bit 4 h OR l) = h"
    by (rule bit_word_eqI) (auto simp: bit_simps dest: l h)
  show "(push_bit 4 h OR l) AND 0xf = l"
    unfolding m by (rule bit_word_eqI) (auto simp: bit_simps dest: l)
qed

lemma lcd_read_byte_trace: "\<exists>b. lcd_read_byte D tr = (b, tr @ read_ops b)"
proof -
  obtain h l where r: "lcd_read_byte D tr = (push_bit 4 h OR l, tr @ read_byte_ops h l)"
    and h: "h AND 0xf = h" and l: "l AND 0xf = l"
    using lcd_read_byte_ops [of D tr] by blast
  have "drop_bit 4 (push_bit 4 h OR l) = h" and "(push_bit 4 h OR l) AND 0xf = l"
    using h l by (rule split_nibbles)+
  then have "read_ops (push_bit 4 h OR l) = read_byte_ops h l"
    by (simp only: read_ops_def)
  with r show ?thesis by metis
qed

lemma read_blocks_append: "read_blocks (as @ bs) = read_blocks as @ read_blocks bs"
  by (induction as) auto

lemma busy_wait_ops:
  assumes "busy_wait D tr = Some tr'"
  shows "\<exists>bs b. tr' = tr @ read_blocks (bs @ [b]) \<and> (\<forall>a \<in> set bs. bit a 7) \<and> \<not> bit b 7"
proof (rule busy_wait.raw_induct [rotated, OF assms])
  fix f :: "device \<Rightarrow> trace \<Rightarrow> trace option" and D tr tr'
  assume IH: "\<And>D tr tr'. f D tr = Some tr' \<Longrightarrow>
      \<exists>bs b. tr' = tr @ read_blocks (bs @ [b]) \<and> (\<forall>a \<in> set bs. bit a 7) \<and> \<not> bit b 7"
    and step: "(case lcd_read_byte D tr of
        (b, tr') \<Rightarrow> if bit b 7 then f D tr' else Some tr') = Some tr'"
  obtain c where r: "lcd_read_byte D tr = (c, tr @ read_ops c)"
    using lcd_read_byte_trace by blast
  show "\<exists>bs b. tr' = tr @ read_blocks (bs @ [b]) \<and> (\<forall>a \<in> set bs. bit a 7) \<and> \<not> bit b 7"
  proof (cases "bit c 7")
    case False
    with step r have "tr' = tr @ read_blocks ([] @ [c])" by simp
    with False show ?thesis by fastforce
  next
    case True
    with step r have "f D (tr @ read_ops c) = Some tr'" by simp
    then obtain bs b where bs: "tr' = (tr @ read_ops c) @ read_blocks (bs @ [b])"
      "\<forall>a \<in> set bs. bit a 7" "\<not> bit b 7"
      using IH by blast
    have "tr' = tr @ read_blocks ((c # bs) @ [b])" using bs(1) by simp
    moreover have "\<forall>a \<in> set (c # bs). bit a 7"
      using bs(2) True by simp
    ultimately show ?thesis using bs(3) by blast
  qed
qed

lemma lcd_send_byte_ops:
  assumes "lcd_send_byte D address n tr = Some tr'"
  shows "\<exists>bs b. tr' = tr @ [Output_bit LCD_RS_PIN False] @ read_blocks (bs @ [b]) @
             transfer_ops address n \<and>
           (\<forall>a \<in> set bs. bit a 7) \<and> \<not> bit b 7"
proof -
  from assms obtain t where t: "busy_wait D (tr @ [Output_bit LCD_RS_PIN False]) = Some t"
    and tr': "tr' = t @ transfer_ops address n"
    by (auto simp: lcd_send_byte_def Let_def lcd_output_rs_def output_bit_def transfer_ops_def
        lcd_send_nibble_ops delay_cycles_def lcd_output_rw_def lcd_output_enable_def
        split: option.splits)
  from busy_wait_ops [OF t] tr' show ?thesis by auto
qed

lemma levels_append: "levels L (xs @ ys) = levels (levels L xs) ys"
  by (induction L xs rule: levels.induct) auto

lemma bus_nibbles_append:
  "bus_nibbles L (xs @ ys) = bus_nibbles L xs @ bus_nibbles (levels L xs) ys"
  by (induction L xs rule: bus_nibbles.induct) auto

lemma nibble_of_bits:
  "(of_bool (bit n 0) OR push_bit 1 (of_bool (bit n 1)) OR
     push_bit 2 (of_bool (bit n 2)) OR push_bit 3 (of_bool (bit n 3)) :: byte) = n AND 0xf"
proof -
  have m: "(0xf :: byte) = mask 4" by (simp add: mask_eq_exp_minus_1)
  have k: "k < 4 \<longleftrightarrow> k = 0 \<or> k = 1 \<or> k = 2 \<or> k = 3" for k :: nat by auto
  show ?thesis
    unfolding m
    by (rule bit_word_eqI) (auto simp: bit_simps k)
qed

lemma drop_bit_4_nibble: "drop_bit 4 n AND 0xf = drop_bit 4 (n :: byte)"
proof -
  have m: "(0xf :: byte) = mask 4" by (simp add: mask_eq_exp_minus_1)
  show ?thesis
    unfolding m
    by (rule bit_word_eqI) (auto simp: bit_simps dest: bit_imp_le_length)
qed

lemma and_f_idem: "(n AND 0xf) AND 0xf = (n AND 0xf :: byte)"
  by (simp add: and.assoc)

lemma levels_read_byte_ops:
  "levels L (read_byte_ops h l) = L\<lparr>line_rw := True, line_enable := False\<rparr>"
  by (simp add: read_ops_defs read_nibble_ops_def)

lemma bus_nibbles_read_byte_ops: "bus_nibbles L (read_byte_ops h l) = []"
  by (simp add: read_ops_defs read_nibble_ops_def)

lemma bus_nibbles_read_blocks: "bus_nibbles L (read_blocks bs) = []"
  by (induction bs arbitrary: L)
    (auto simp: bus_nibbles_append bus_nibbles_read_byte_ops read_ops_def)

lemma levels_read_blocks:
  "levels L (read_blocks bs) =
    (if bs = [] then L else L\<lparr>line_rw := True, line_enable := False\<rparr>)"
  by (induction bs arbitrary: L) (auto simp: levels_append levels_read_byte_ops read_ops_def)

lemma levels_send_nibble_ops:
  "levels L (send_nibble_ops n) =
    L\<lparr>line_d4 := bit n 0, line_d5 := bit n 1, line_d6 := bit n 2, line_d7 := bit n 3,
      line_enable := False\<rparr>"
  by (simp add: send_nibble_ops_def)

lemma data_nibble_bits:
  assumes "line_d4 L = bit n 0" "line_d5 L = bit n 1" "line_d6 L = bit n 2" "line_d7 L = bit n 3"
  shows "data_nibble L = n AND 0xf"
  unfolding data_nibble_def assms by (rule nibble_of_bits)

lemma bus_nibbles_send_nibble_ops:
  "\<not> line_rw L \<Longrightarrow> bus_nibbles L (send_nibble_ops n) = [(line_rs L, n AND 0xf)]"
  by (simp add: send_nibble_ops_def data_nibble_bits [of _ n])

lemma bus_nibbles_transfer_ops:
  "\<not> line_enable L \<Longrightarrow> bus_nibbles L (transfer_ops address n) =
     [(address \<noteq> 0, drop_bit 4 n), (address \<noteq> 0, n AND 0xf)]"
  by (auto simp: transfer_ops_def bus_nibbles_append levels_append levels_send_nibble_ops
      bus_nibbles_send_nibble_ops drop_bit_4_nibble)

lemma levels_transfer_ops:
  "levels L (transfer_ops address n) =
    L\<lparr>line_rs := address \<noteq> 0, line_rw := False,
      line_d4 := bit n 0, line_d5 := bit n 1, line_d6 := bit n 2, line_d7 := bit n 3,
      line_enable := False\<rparr>"
  by (simp add: transfer_ops_def levels_append levels_send_nibble_ops bit_simps)

lemma bus_nibbles_send_byte:
  assumes "lcd_send_byte D address n tr = Some tr'"
  shows "bus_nibbles L tr' =
    bus_nibbles L tr @ [(address \<noteq> 0, drop_bit 4 n), (address \<noteq> 0, n AND 0xf)]"
proof -
  from lcd_send_byte_ops [OF assms] obtain bs b where
    tr': "tr' = tr @ [Output_bit LCD_RS_PIN False] @ read_blocks (bs @ [b]) @ transfer_ops address n"
    by blast
  show ?thesis
    unfolding tr'
    by (simp add: bus_nibbles_append levels_append bus_nibbles_read_blocks levels_read_blocks
        bus_nibbles_transfer_ops)
qed

lemma levels_send_byte:
  assumes "lcd_send_byte D address n tr = Some tr'"
  shows "levels L tr' = (levels L tr)\<lparr>line_rs := address \<noteq> 0, line_rw := False,
      line_d4 := bit n 0, line_d5 := bit n 1, line_d6 := bit n 2, line_d7 := bit n 3,
      line_enable := False\<rparr>"
proof -
  from lcd_send_byte_ops [OF assms] obtain bs b where
    tr': "tr' = tr @ [Output_bit LCD_RS_PIN False] @ read_blocks (bs @ [b]) @ transfer_ops address n"
    by blast
  show ?thesis
    unfolding tr'
    by (simp add: levels_append levels_read_blocks levels_transfer_ops)
qed


lemma lcd_send_byte_eq:
  "lcd_send_byte D address n tr =
    (case busy_wait D (tr @ [Output_bit LCD_RS_PIN False]) of
       None \<Rightarrow> None
     | Some t \<Rightarrow> Some (t @ transfer_ops address n))"
  by (simp add: lcd_send_byte_def Let_def lcd_output_rs_def output_bit_def transfer_ops_def
      lcd_send_nibble_ops delay_cycles_def lcd_output_rw_def lcd_output_enable_def
      split: option.splits)

lemma idle_read_byte: "lcd_read_byte idle_device tr = (0, tr @ read_ops 0)"
  by (simp add: lcd_read_byte_def lcd_read_nibble_def input_def idle_device_def Let_def
      output_float_def output_drive_def output_bit_def delay_cycles_def delay_us_def
      lcd_output_enable_def lcd_output_rw_def read_ops_def read_ops_defs read_nibble_ops_def)

lemma idle_busy_wait: "busy_wait idle_device tr = Some (tr @ read_ops 0)"
  by (subst busy_wait.simps) (simp add: idle_read_byte)

lemma idle_send_byte:
  "lcd_send_byte idle_device address n tr =
    Some (tr @ [Output_bit LCD_RS_PIN False] @ read_ops 0 @ transfer_ops address n)"
  by (simp add: lcd_send_byte_eq idle_busy_wait)


lemma join_nibbles: "push_bit 4 (drop_bit 4 n) OR (n AND 0xf) = (n :: byte)"
proof -
  have m: "(0xf :: byte) = mask 4" by (simp add: mask_eq_exp_minus_1)
  show ?thesis
    unfolding m
    by (rule bit_word_eqI) (auto simp: bit_simps)
qed

lemma sent_nibbles_send_byte:
  "sent_nibbles L tr (lcd_send_byte D address n tr) =
    map_option (\<lambda>t. [(address \<noteq> 0, drop_bit 4 n), (address \<noteq> 0, n AND 0xf)])
      (busy_wait D (tr @ [Output_bit LCD_RS_PIN False]))"
proof (cases "lcd_send_byte D address n tr")
  case None
  then show ?thesis by (simp add: sent_nibbles_def lcd_send_byte_eq split: option.splits)
next
  case (Some tr')
  from bus_nibbles_send_byte [OF Some, of L] Some show ?thesis
    by (simp add: sent_nibbles_def) (simp add: lcd_send_byte_eq split: option.splits)
qed

lemma sent_bytes_send_byte:
  "sent_bytes L tr (lcd_send_byte D address n tr) =
    map_option (\<lambda>t. [(address \<noteq> 0, n)]) (busy_wait D (tr @ [Output_bit LCD_RS_PIN False]))"
  by (simp add: sent_bytes_def sent_nibbles_send_byte option.map_comp comp_def join_nibbles)

lemma lcd_gotoxy_eq:
  "lcd_gotoxy D x y tr = lcd_send_byte D 0 (0x80 OR ((if y = 1 then 0 else 0x40) + x - 1)) tr"
  by (simp add: lcd_gotoxy_def LCD_LINE_TWO_def Let_def)

lemma gotoxy_spec_address:
  fixes x y :: byte
  assumes "y = 1 \<or> y = 2" "1 \<le> unat x"
  shows "(if y = 1 then 0 else 0x40) + x - 1 = (of_nat (spec_address (unat x) (unat y)) :: byte)"
  using assms by (auto simp: spec_address_def spec_offset_def)

lemma pin_direction_append:
  "pin_direction d p (xs @ ys) = pin_direction (pin_direction d p xs) p ys"
  by (induction xs arbitrary: d) auto

lemma upt_4_22: "[4..<22] = [4,5,6,7,8,9,10,11,12,13,14,15,16,17,18,19,20,21::nat]"
  by (simp add: upt_rec)

lemma or_0x80: 
  assumes "a < 128" shows "unat (0x80 OR of_nat a :: byte) = 0x80 + a"
proof -
  have nb: "\<not> bit a 7" using assms by (simp add: bit_iff_odd)
  have b: "bit (0x80 :: int) n \<longleftrightarrow> n = 7" for n
    using bit_exp_iff [where ?'a = int, of 7 n] by auto
  have "(0x80 :: byte) AND of_nat a = 0"
    by (rule bit_word_eqI) (auto simp: bit_and_iff bit_of_nat_iff b nb)
  then have "(0x80 OR of_nat a :: byte) = 0x80 + of_nat a"
    by (simp add: disjunctive_add_eq_or)
  also have "\<dots> = of_nat (0x80 + a)" by simp
  finally show ?thesis using assms by (simp add: unat_of_nat del: of_nat_add)
qed

lemma lcd_read_byte_stuck:
  assumes "\<And>t. D t LCD_DATA7"
  shows "bit (fst (lcd_read_byte D tr)) 7"
  by (simp add: lcd_read_byte_def lcd_read_nibble_def input_def Let_def split_def assms bit_simps)

lemma unat_minus_one: "unat (c + x - 1 :: byte) = (unat c + unat x + 255) mod 256"
proof -
  have e: "c + x - 1 = c + x + 255" by simp
  have "unat (c + x + 255) = (unat c + unat x + 255) mod 256"
    by (simp add: unat_word_ariths mod_simps)
  then show ?thesis by (simp only: e)
qed

lemma unat_gotoxy_address:
  "unat ((if y = 1 then 0 else 0x40) + x - 1 :: byte) =
     ((if (y :: byte) = 1 then 0 else 0x40) + unat x + 255) mod 256"
proof (cases "y = 1")
  case True
  then show ?thesis using unat_minus_one [where c = 0 and x = x] by (simp del: diff_add_cancel add_diff_cancel)
next
  case False
  then show ?thesis using unat_minus_one [where c = "0x40" and x = x] by (simp del: diff_add_cancel add_diff_cancel)
qed


lemma data_pin_driving_after_read:
  "p \<in> set data_pins \<Longrightarrow> pin_direction d p (read_byte_ops h l) = Driving"
  by (auto simp: read_ops_defs read_nibble_ops_def data_pins_def)

lemma data_pin_floating_during_read:
  "p \<in> set data_pins \<Longrightarrow> k \<in> set [4..<22] \<Longrightarrow>
    pin_direction d p (take k (read_byte_ops h l)) = Floating"
  unfolding upt_4_22
  by (auto simp: read_ops_defs read_nibble_ops_def data_pins_def)


lemma lcd_init_wake_ops:
  "lcd_init_wake 1 tr = tr @ send_nibble_ops 3 @ [Delay_ms 5] @ send_nibble_ops 3 @ [Delay_ms 5] @
    send_nibble_ops 3 @ [Delay_ms 5]"
  by (simp add: lcd_send_nibble_ops delay_ms_def)

lemma lcd_init_wake_ops_Suc:
  "lcd_init_wake (Suc 0) tr = tr @ send_nibble_ops 3 @ [Delay_ms 5] @ send_nibble_ops 3 @
    [Delay_ms 5] @ send_nibble_ops 3 @ [Delay_ms 5]"
  using lcd_init_wake_ops [of tr] by (simp del: lcd_init_wake.simps)

lemma lcd_init_eq: "lcd_init D tr = lcd_init_string D 0 (tr @ init_prefix_ops)"
  by (simp add: lcd_init_def Let_def lcd_init_wake_ops_Suc lcd_send_nibble_ops init_prefix_ops_def
      output_drive_def lcd_enable_tris_def lcd_rs_tris_def lcd_rw_tris_def lcd_output_rs_def
      lcd_output_rw_def lcd_output_enable_def output_bit_def delay_ms_def
      del: lcd_init_wake.simps lcd_init_string.simps)

lemma lcd_init_string_eq:
  "lcd_init_string D 0 t0 =
    Option.bind (lcd_send_byte D 0 0x28 t0) (\<lambda>t1.
    Option.bind (lcd_send_byte D 0 0xc t1) (\<lambda>t2.
    Option.bind (lcd_send_byte D 0 1 t2) (\<lambda>t3. lcd_send_byte D 0 6 t3)))"
  by (simp add: LCD_INIT_STRING_def LCD_TYPE_def split: option.splits)

lemma bus_nibbles_init_prefix:
  "\<not> line_enable L \<Longrightarrow>
    bus_nibbles L init_prefix_ops = [(False, 3), (False, 3), (False, 3), (False, 2)]"
  by (simp add: init_prefix_ops_def bus_nibbles_append levels_append levels_send_nibble_ops
      bus_nibbles_send_nibble_ops)

lemma bus_nibbles_init:
  assumes "\<not> line_enable (levels L tr)" and "lcd_init D tr = Some tr'"
  shows "bus_nibbles L tr' = bus_nibbles L tr @
    [(False, 3), (False, 3), (False, 3), (False, 2), (False, 2), (False, 8), (False, 0),
     (False, 0xc), (False, 0), (False, 1), (False, 0), (False, 6)]"
proof -
  let ?t0 = "tr @ init_prefix_ops"
  from assms(2) obtain t1 t2 t3 where
    s1: "lcd_send_byte D 0 0x28 ?t0 = Some t1" and
    s2: "lcd_send_byte D 0 0xc t1 = Some t2" and
    s3: "lcd_send_byte D 0 1 t2 = Some t3" and
    s4: "lcd_send_byte D 0 6 t3 = Some tr'"
    by (auto simp: lcd_init_eq lcd_init_string_eq bind_eq_Some_conv
        simp del: lcd_init_string.simps)
  have "bus_nibbles L ?t0 = bus_nibbles L tr @ [(False, 3), (False, 3), (False, 3), (False, 2)]"
    using assms(1) by (simp add: bus_nibbles_append bus_nibbles_init_prefix)
  then show ?thesis
    by (simp add: bus_nibbles_send_byte [OF s1] bus_nibbles_send_byte [OF s2]
        bus_nibbles_send_byte [OF s3] bus_nibbles_send_byte [OF s4])
qed

lemma idle_init: "lcd_init idle_device tr \<noteq> None"
  by (simp add: lcd_init_eq lcd_init_string_eq idle_send_byte del: lcd_init_string.simps)

lemma busy_at_stuck:
  assumes "\<forall>t. D t LCD_DATA7"
  shows "busy_at D k tr"
  unfolding busy_at_def by (rule lcd_read_byte_stuck) (simp add: assms)

lemma busy_wait_stuck:
  assumes "\<forall>t. D t LCD_DATA7"
  shows "busy_wait D tr = None"
  using busy_wait_terminates_iff [of D tr] busy_at_stuck [of D, OF assms] by simp

lemma lcd_send_byte_returns_iff:
  "(lcd_send_byte D address n tr \<noteq> None) =
    (\<exists>k. \<not> busy_at D k (tr @ [Output_bit LCD_RS_PIN False]))"
  using busy_wait_terminates_iff [of D "tr @ [Output_bit LCD_RS_PIN False]"]
  by (cases "busy_wait D (tr @ [Output_bit LCD_RS_PIN False])") (simp_all add: lcd_send_byte_eq)

lemma lcd_getc_returns_iff:
  "(lcd_getc D x y tr \<noteq> None) =
    (\<exists>t. lcd_gotoxy D x y tr = Some t \<and> (\<exists>k. \<not> busy_at D k t))"
proof (cases "lcd_gotoxy D x y tr")
  case None
  then show ?thesis by (simp add: lcd_getc_def)
next
  case (Some t)
  then show ?thesis
    using busy_wait_terminates_iff [of D t]
    by (cases "busy_wait D t") (simp_all add: lcd_getc_def Let_def split_def)
qed

lemma QUET_THE_loop_0:
  "QUET_THE_loop 0 DATA UID THE_1 =
    (UID ! 0 = DATA ! 0 \<and> UID ! 1 = DATA ! 1 \<and> UID ! 2 = DATA ! 2 \<and> UID ! 3 = DATA ! 3)"
  by (auto simp: numeral_2_eq_2 numeral_3_eq_3)

section \<open>The driver against the model of the display\<close>

lemma display_state_append:
  "display_state d0 (tr @ evs) = foldl display_step (display_state d0 tr) evs"
  by (simp add: display_state_def)

lemma lcd_read_nibble_of:
  assumes "D tr LCD_DATA4 = bit m 0"
    and "D (tr @ [Input LCD_DATA4 (bit m 0)]) LCD_DATA5 = bit m 1"
    and "D (tr @ [Input LCD_DATA4 (bit m 0), Input LCD_DATA5 (bit m 1)]) LCD_DATA6 = bit m 2"
    and "D (tr @ [Input LCD_DATA4 (bit m 0), Input LCD_DATA5 (bit m 1),
           Input LCD_DATA6 (bit m 2)]) LCD_DATA7 = bit m 3"
  shows "lcd_read_nibble D tr = (m AND 0xf, tr @ read_nibble_ops m)"
proof -
  have "lcd_read_nibble D tr =
    (((((0 OR of_bool (bit m 0)) OR push_bit 1 (of_bool (bit m 1))) OR
       push_bit 2 (of_bool (bit m 2))) OR push_bit 3 (of_bool (bit m 3))),
     tr @ read_nibble_ops m)"
    unfolding lcd_read_nibble_def input_def Let_def prod.case
    by (simp only: assms append_assoc append.simps read_nibble_ops_def)
  then show ?thesis by (simp only: or.left_neutral or.assoc nibble_of_bits)
qed

lemma display_state_inputs [simp]:
  "display_state d0 (tr @ [Input p v]) = display_state d0 tr"
  "display_state d0 (tr @ [Input p v, Input p' v']) = display_state d0 tr"
  "display_state d0 (tr @ [Input p v, Input p' v', Input p'' v'']) = display_state d0 tr"
  "display_state d0 (tr @ read_nibble_ops n) = display_state d0 tr"
  by (simp_all add: display_state_def read_nibble_ops_def)

lemma display_read_nibble:
  assumes "line_rw (dsp_lines (display_state d0 tr))"
    and "line_enable (dsp_lines (display_state d0 tr))"
  shows "lcd_read_nibble (display_device d0) tr =
      (dsp_out (display_state d0 tr) AND 0xf, tr @ read_nibble_ops (dsp_out (display_state d0 tr)))"
  by (rule lcd_read_nibble_of) (simp_all add: display_device_def assms)

lemma lcd_read_byte_alt:
  "lcd_read_byte D tr =
    (case lcd_read_nibble D (tr @ read_pre_ops) of
      (high, t) \<Rightarrow>
        (case lcd_read_nibble D (t @ read_mid_ops) of
          (low, t') \<Rightarrow> (push_bit 4 high OR low, t' @ read_post_ops)))"
  by (simp add: lcd_read_byte_def Let_def output_float_def output_drive_def output_bit_def
      delay_cycles_def delay_us_def lcd_output_enable_def lcd_output_rw_def split_def
      read_pre_ops_def read_mid_ops_def read_post_ops_def)

lemma display_steps_read_pre:
  assumes "display_ready d"
  shows "foldl display_step d read_pre_ops =
      d\<lparr>dsp_lines := (dsp_lines d)\<lparr>line_rw := True, line_enable := True\<rparr>,
        dsp_out := drop_bit 4 (dsp_register (line_rs (dsp_lines d)) (dsp_mem d)),
        dsp_low := Some (dsp_register (line_rs (dsp_lines d)) (dsp_mem d) AND 0xf)\<rparr>"
  using assms
  by (simp add: read_pre_ops_def display_ready_def dsp_enable_rises_def Let_def)

lemma display_steps_read_mid:
  assumes "line_rw (dsp_lines d)" "line_enable (dsp_lines d)" "dsp_low d = Some l"
  shows "foldl display_step d read_mid_ops =
      d\<lparr>dsp_out := l, dsp_low := None,
        dsp_mem := dsp_read_done (line_rs (dsp_lines d)) (dsp_mem d)\<rparr>"
  using assms
  by (simp add: read_mid_ops_def dsp_enable_rises_def dsp_enable_falls_def Let_def)

lemma display_steps_read_post:
  assumes "line_rw (dsp_lines d)"
  shows "foldl display_step d read_post_ops =
      d\<lparr>dsp_lines := (dsp_lines d)\<lparr>line_enable := False\<rparr>\<rparr>"
  using assms
  by (simp add: read_post_ops_def dsp_enable_falls_def Let_def)

lemma display_steps_read_nibble [simp]: "foldl display_step d (read_nibble_ops n) = d"
  by (simp add: read_nibble_ops_def)

lemma display_steps_read_byte:
  assumes "display_ready d"
  shows "foldl display_step d (read_byte_ops h l) =
      d\<lparr>dsp_lines := (dsp_lines d)\<lparr>line_rw := True, line_enable := False\<rparr>,
        dsp_out := dsp_register (line_rs (dsp_lines d)) (dsp_mem d) AND 0xf,
        dsp_mem := dsp_read_done (line_rs (dsp_lines d)) (dsp_mem d)\<rparr>"
proof -
  from assms have "dsp_low d = None" by (simp add: display_ready_def)
  then show ?thesis
    unfolding read_byte_ops_def foldl_append display_steps_read_nibble
      display_steps_read_pre [OF assms]
    by (simp add: display_steps_read_mid display_steps_read_post)
qed

lemma display_read_byte:
  assumes ready: "display_ready (display_state d0 tr)"
  shows "lcd_read_byte (display_device d0) tr =
      (dsp_register (line_rs (dsp_lines (display_state d0 tr))) (dsp_mem (display_state d0 tr)),
       tr @ read_byte_ops
         (drop_bit 4 (dsp_register (line_rs (dsp_lines (display_state d0 tr)))
            (dsp_mem (display_state d0 tr))))
         (dsp_register (line_rs (dsp_lines (display_state d0 tr)))
            (dsp_mem (display_state d0 tr)) AND 0xf))"
proof -
  let ?d = "display_state d0 tr"
  let ?R = "dsp_register (line_rs (dsp_lines ?d)) (dsp_mem ?d)"
  let ?D = "display_device d0"
  let ?d1 = "?d\<lparr>dsp_lines := (dsp_lines ?d)\<lparr>line_rw := True, line_enable := True\<rparr>,
        dsp_out := drop_bit 4 ?R, dsp_low := Some (?R AND 0xf)\<rparr>"
  have s1: "display_state d0 (tr @ read_pre_ops) = ?d1"
    unfolding display_state_append by (rule display_steps_read_pre [OF ready])
  have n1: "lcd_read_nibble ?D (tr @ read_pre_ops) =
      (drop_bit 4 ?R, (tr @ read_pre_ops) @ read_nibble_ops (drop_bit 4 ?R))"
    using display_read_nibble [of d0 "tr @ read_pre_ops"] unfolding s1
    by (simp add: drop_bit_4_nibble)
  let ?t2 = "((tr @ read_pre_ops) @ read_nibble_ops (drop_bit 4 ?R)) @ read_mid_ops"
  have "display_state d0 ?t2 =
      foldl display_step (display_state d0 ((tr @ read_pre_ops) @
        read_nibble_ops (drop_bit 4 ?R))) read_mid_ops"
    by (rule display_state_append)
  also have "display_state d0 ((tr @ read_pre_ops) @ read_nibble_ops (drop_bit 4 ?R)) = ?d1"
    unfolding s1 [symmetric] by (rule display_state_inputs)
  also have "foldl display_step ?d1 read_mid_ops =
      ?d1\<lparr>dsp_out := ?R AND 0xf, dsp_low := None,
        dsp_mem := dsp_read_done (line_rs (dsp_lines ?d1)) (dsp_mem ?d1)\<rparr>"
    by (rule display_steps_read_mid) simp_all
  finally have s2: "line_rw (dsp_lines (display_state d0 ?t2))"
      "line_enable (dsp_lines (display_state d0 ?t2))"
      "dsp_out (display_state d0 ?t2) = ?R AND 0xf"
    by simp_all
  have n2: "lcd_read_nibble ?D ?t2 = (?R AND 0xf, ?t2 @ read_nibble_ops (?R AND 0xf))"
    using display_read_nibble [of d0 ?t2, OF s2(1,2)] unfolding s2(3)
    by (simp add: and_f_idem)
  show ?thesis
    unfolding lcd_read_byte_alt n1 prod.case n2
    by (simp add: join_nibbles read_byte_ops_def)
qed

lemma display_state_read_byte:
  assumes "display_ready (display_state d0 tr)"
  shows "display_state d0 (tr @ read_byte_ops h l) =
      (display_state d0 tr)\<lparr>dsp_lines := (dsp_lines (display_state d0 tr))
          \<lparr>line_rw := True, line_enable := False\<rparr>,
        dsp_out := dsp_register (line_rs (dsp_lines (display_state d0 tr)))
          (dsp_mem (display_state d0 tr)) AND 0xf,
        dsp_mem := dsp_read_done (line_rs (dsp_lines (display_state d0 tr)))
          (dsp_mem (display_state d0 tr))\<rparr>"
  unfolding display_state_append by (rule display_steps_read_byte [OF assms])

lemma status_bit_7:
  "bit ((if 0 < (n :: nat) then 0x80 else 0) OR (a AND 0x7f) :: byte) 7 = (0 < n)"
proof -
  have "\<not> bit (a AND 0x7f) 7"
  proof -
    have m: "(0x7f :: byte) = mask 7" by (simp add: mask_eq_exp_minus_1)
    show ?thesis unfolding m by (simp add: bit_simps)
  qed
  moreover have "bit (0x80 :: byte) 7"
    using bit_exp_iff [where ?'a = byte, of 7 7] by simp
  ultimately show ?thesis by (simp add: bit_or_iff)
qed

lemma display_busy_wait:
  assumes "display_ready (display_state d0 tr)"
    and "\<not> line_rs (dsp_lines (display_state d0 tr))"
  shows "\<exists>tr'. busy_wait (display_device d0) tr = Some tr' \<and>
      display_state d0 tr' =
        (display_state d0 tr)\<lparr>dsp_lines := (dsp_lines (display_state d0 tr))
            \<lparr>line_rw := True, line_enable := False\<rparr>,
          dsp_out := (mem_addr (dsp_mem (display_state d0 tr)) AND 0x7f) AND 0xf,
          dsp_mem := (dsp_mem (display_state d0 tr))\<lparr>mem_busy := 0\<rparr>\<rparr>"
  using assms
proof (induction "mem_busy (dsp_mem (display_state d0 tr))" arbitrary: tr)
  case 0
  let ?d = "display_state d0 tr"
  let ?R = "dsp_register (line_rs (dsp_lines ?d)) (dsp_mem ?d)"
  have R: "?R = mem_addr (dsp_mem ?d) AND 0x7f"
    using 0 by (simp add: dsp_register_def)
  have nb: "\<not> bit ?R 7"
    using status_bit_7 [of 0 "mem_addr (dsp_mem ?d)"] unfolding R by simp
  have "busy_wait (display_device d0) tr =
      Some (tr @ read_byte_ops (drop_bit 4 ?R) (?R AND 0xf))"
    by (subst busy_wait.simps) (simp add: display_read_byte [OF "0.prems"(1)] nb)
  moreover have "display_state d0 (tr @ read_byte_ops (drop_bit 4 ?R) (?R AND 0xf)) =
      ?d\<lparr>dsp_lines := (dsp_lines ?d)\<lparr>line_rw := True, line_enable := False\<rparr>,
          dsp_out := (mem_addr (dsp_mem ?d) AND 0x7f) AND 0xf,
          dsp_mem := (dsp_mem ?d)\<lparr>mem_busy := 0\<rparr>\<rparr>"
    using 0 by (simp add: display_state_read_byte R [symmetric] dsp_read_done_def)
  ultimately show ?case by blast
next
  case (Suc n)
  let ?d = "display_state d0 tr"
  let ?R = "dsp_register (line_rs (dsp_lines ?d)) (dsp_mem ?d)"
  let ?tr1 = "tr @ read_byte_ops (drop_bit 4 ?R) (?R AND 0xf)"
  have R: "?R = 0x80 OR (mem_addr (dsp_mem ?d) AND 0x7f)"
    using Suc.prems Suc.hyps(2) [symmetric] by (simp add: dsp_register_def)
  have b: "bit ?R 7"
    using status_bit_7 [of "Suc n" "mem_addr (dsp_mem ?d)"] unfolding R by simp
  have s1: "display_state d0 ?tr1 =
      ?d\<lparr>dsp_lines := (dsp_lines ?d)\<lparr>line_rw := True, line_enable := False\<rparr>,
          dsp_out := ?R AND 0xf, dsp_mem := (dsp_mem ?d)\<lparr>mem_busy := n\<rparr>\<rparr>"
    using Suc.prems Suc.hyps(2) [symmetric]
    by (simp add: display_state_read_byte dsp_read_done_def)
  have "busy_wait (display_device d0) tr = busy_wait (display_device d0) ?tr1"
    by (subst busy_wait.simps) (simp add: display_read_byte [OF Suc.prems(1)] b)
  moreover have "\<exists>tr'. busy_wait (display_device d0) ?tr1 = Some tr' \<and>
      display_state d0 tr' =
        (display_state d0 ?tr1)\<lparr>dsp_lines := (dsp_lines (display_state d0 ?tr1))
            \<lparr>line_rw := True, line_enable := False\<rparr>,
          dsp_out := (mem_addr (dsp_mem (display_state d0 ?tr1)) AND 0x7f) AND 0xf,
          dsp_mem := (dsp_mem (display_state d0 ?tr1))\<lparr>mem_busy := 0\<rparr>\<rparr>"
  proof -
    have "n = mem_busy (dsp_mem (display_state d0 ?tr1))"
      and "display_ready (display_state d0 ?tr1)"
      and "\<not> line_rs (dsp_lines (display_state d0 ?tr1))"
      unfolding s1 using Suc.prems by (simp_all add: display_ready_def)
    then show ?thesis by (rule Suc.hyps(1))
  qed
  ultimately show ?case unfolding s1 by simp
qed

lemma display_steps_send_nibble:
  assumes "\<not> line_rw (dsp_lines d)" and "\<not> line_enable (dsp_lines d)"
  shows "foldl display_step d (send_nibble_ops m) =
    (case dsp_high d of
       None \<Rightarrow> d\<lparr>dsp_high := Some (m AND 0xf)\<rparr>
     | Some h \<Rightarrow> d\<lparr>dsp_high := None,
         dsp_mem := dsp_execute (line_rs (dsp_lines d)) (push_bit 4 h OR (m AND 0xf))
           (dsp_mem d)\<rparr>)
    \<lparr>dsp_lines := (dsp_lines d)\<lparr>line_d4 := bit m 0, line_d5 := bit m 1, line_d6 := bit m 2,
       line_d7 := bit m 3, line_enable := False\<rparr>\<rparr>"
proof -
  let ?L = "(dsp_lines d)\<lparr>line_d4 := bit m 0, line_d5 := bit m 1, line_d6 := bit m 2,
       line_d7 := bit m 3\<rparr>"
  have n: "data_nibble (?L\<lparr>line_enable := True\<rparr>) = m AND 0xf"
    by (rule data_nibble_bits) simp_all
  have 1: "foldl display_step d [Output_bit LCD_DATA4 (bit m 0), Output_bit LCD_DATA5 (bit m 1),
      Output_bit LCD_DATA6 (bit m 2), Output_bit LCD_DATA7 (bit m 3), Delay_cycles 1,
      Output_bit LCD_ENABLE_PIN True, Delay_us 2] = d\<lparr>dsp_lines := ?L\<lparr>line_enable := True\<rparr>\<rparr>"
    using assms by (simp add: dsp_enable_rises_def Let_def)
  have "foldl display_step d (send_nibble_ops m) =
      display_step (d\<lparr>dsp_lines := ?L\<lparr>line_enable := True\<rparr>\<rparr>) (Output_bit LCD_ENABLE_PIN False)"
    unfolding 1 [symmetric] by (simp add: send_nibble_ops_def)
  also have "\<dots> = (case dsp_high d of
       None \<Rightarrow> d\<lparr>dsp_high := Some (m AND 0xf)\<rparr>
     | Some h \<Rightarrow> d\<lparr>dsp_high := None,
         dsp_mem := dsp_execute (line_rs (dsp_lines d)) (push_bit 4 h OR (m AND 0xf))
           (dsp_mem d)\<rparr>)
    \<lparr>dsp_lines := ?L\<lparr>line_enable := False\<rparr>\<rparr>"
    using assms
    by (simp add: dsp_enable_falls_def Let_def n split: option.splits del: One_nat_def)
  finally show ?thesis .
qed

lemma display_steps_transfer:
  assumes "display_ready d"
  shows "foldl display_step d (transfer_ops address n) =
    d\<lparr>dsp_mem := dsp_execute (address \<noteq> 0) n (dsp_mem d),
      dsp_lines := (dsp_lines d)\<lparr>line_rs := address \<noteq> 0, line_rw := False,
       line_d4 := bit n 0, line_d5 := bit n 1, line_d6 := bit n 2,
       line_d7 := bit n 3, line_enable := False\<rparr>\<rparr>"
proof -
  let ?d1 = "d\<lparr>dsp_lines := (dsp_lines d)\<lparr>line_rs := address \<noteq> 0, line_rw := False\<rparr>\<rparr>"
  from assms have r: "\<not> line_enable (dsp_lines d)" "dsp_high d = None" "dsp_low d = None"
    by (simp_all add: display_ready_def)
  have 1: "foldl display_step d [Output_bit LCD_RS_PIN (address \<noteq> 0), Delay_cycles 1,
      Output_bit LCD_RW_PIN False, Delay_cycles 1, Output_bit LCD_ENABLE_PIN False] = ?d1"
    using r by (simp add: Let_def)
  let ?d2 = "?d1\<lparr>dsp_high := Some (drop_bit 4 n),
        dsp_lines := (dsp_lines ?d1)\<lparr>line_d4 := bit (drop_bit 4 n) 0,
          line_d5 := bit (drop_bit 4 n) 1, line_d6 := bit (drop_bit 4 n) 2,
          line_d7 := bit (drop_bit 4 n) 3, line_enable := False\<rparr>\<rparr>"
  have 2: "foldl display_step ?d1 (send_nibble_ops (drop_bit 4 n)) = ?d2"
    using r by (subst display_steps_send_nibble) (simp_all add: drop_bit_4_nibble)
  have 3: "foldl display_step ?d2 (send_nibble_ops (n AND 0xf)) =
      ?d2\<lparr>dsp_high := None, dsp_mem := dsp_execute (address \<noteq> 0) n (dsp_mem d),
        dsp_lines := (dsp_lines ?d2)\<lparr>line_d4 := bit (n AND 0xf) 0,
          line_d5 := bit (n AND 0xf) 1, line_d6 := bit (n AND 0xf) 2,
          line_d7 := bit (n AND 0xf) 3, line_enable := False\<rparr>\<rparr>"
    by (subst display_steps_send_nibble) (simp_all add: and_f_idem join_nibbles)
  have b: "bit (n AND 0xf) 0 = bit n 0" "bit (n AND 0xf) 1 = bit n 1"
    "bit (n AND 0xf) 2 = bit n 2" "bit (n AND 0xf) 3 = bit n 3"
    by (simp_all add: bit_simps)
  have "foldl display_step d (transfer_ops address n) =
      foldl display_step (foldl display_step ?d1 (send_nibble_ops (drop_bit 4 n)))
        (send_nibble_ops (n AND 0xf))"
    unfolding 1 [symmetric] by (simp add: transfer_ops_def)
  also have "\<dots> = ?d2\<lparr>dsp_high := None, dsp_mem := dsp_execute (address \<noteq> 0) n (dsp_mem d),
        dsp_lines := (dsp_lines ?d2)\<lparr>line_d4 := bit (n AND 0xf) 0,
          line_d5 := bit (n AND 0xf) 1, line_d6 := bit (n AND 0xf) 2,
          line_d7 := bit (n AND 0xf) 3, line_enable := False\<rparr>\<rparr>"
    unfolding 2 by (rule 3)
  also have "\<dots> = d\<lparr>dsp_mem := dsp_execute (address \<noteq> 0) n (dsp_mem d),
      dsp_lines := (dsp_lines d)\<lparr>line_rs := address \<noteq> 0, line_rw := False,
       line_d4 := bit n 0, line_d5 := bit n 1, line_d6 := bit n 2,
       line_d7 := bit n 3, line_enable := False\<rparr>\<rparr>"
    using r unfolding b by simp
  finally show ?thesis .
qed


lemma display_send_byte:
  assumes "display_ready (display_state d0 tr)"
  shows "\<exists>tr'. lcd_send_byte (display_device d0) address n tr = Some tr' \<and>
    display_ready (display_state d0 tr') \<and>
    line_rs (dsp_lines (display_state d0 tr')) = (address \<noteq> 0) \<and>
    dsp_mem (display_state d0 tr') =
      dsp_execute (address \<noteq> 0) n ((dsp_mem (display_state d0 tr))\<lparr>mem_busy := 0\<rparr>)"
proof -
  let ?d = "display_state d0 tr"
  let ?t0 = "tr @ [Output_bit LCD_RS_PIN False]"
  have s0: "display_state d0 ?t0 = ?d\<lparr>dsp_lines := (dsp_lines ?d)\<lparr>line_rs := False\<rparr>\<rparr>"
    unfolding display_state_append by (simp add: Let_def)
  have "display_ready (display_state d0 ?t0)" "\<not> line_rs (dsp_lines (display_state d0 ?t0))"
    unfolding s0 using assms by (simp_all add: display_ready_def)
  from display_busy_wait [OF this] obtain t1 where
    w: "busy_wait (display_device d0) ?t0 = Some t1" and
    s1: "display_state d0 t1 =
        ?d\<lparr>dsp_lines := (dsp_lines ?d)\<lparr>line_rs := False, line_rw := True, line_enable := False\<rparr>,
          dsp_out := (mem_addr (dsp_mem ?d) AND 0x7f) AND 0xf,
          dsp_mem := (dsp_mem ?d)\<lparr>mem_busy := 0\<rparr>\<rparr>"
    unfolding s0 by auto
  have r1: "display_ready (display_state d0 t1)"
    unfolding s1 using assms by (simp add: display_ready_def)
  have "lcd_send_byte (display_device d0) address n tr = Some (t1 @ transfer_ops address n)"
    by (simp add: lcd_send_byte_eq w)
  moreover have "display_state d0 (t1 @ transfer_ops address n) =
      (display_state d0 t1)\<lparr>dsp_mem := dsp_execute (address \<noteq> 0) n (dsp_mem (display_state d0 t1)),
        dsp_lines := (dsp_lines (display_state d0 t1))\<lparr>line_rs := address \<noteq> 0, line_rw := False,
         line_d4 := bit n 0, line_d5 := bit n 1, line_d6 := bit n 2,
         line_d7 := bit n 3, line_enable := False\<rparr>\<rparr>"
    unfolding display_state_append by (rule display_steps_transfer [OF r1])
  ultimately show ?thesis
    using assms unfolding s1 by (simp add: display_ready_def)
qed

lemma display_gotoxy:
  assumes "display_ready (display_state d0 tr)"
  shows "\<exists>tr'. lcd_gotoxy (display_device d0) x y tr = Some tr' \<and>
    display_ready (display_state d0 tr') \<and>
    \<not> line_rs (dsp_lines (display_state d0 tr')) \<and>
    dsp_mem (display_state d0 tr') = (dsp_mem (display_state d0 tr))
      \<lparr>mem_addr := ((if y = 1 then 0 else 0x40) + x - 1) AND 0x7f,
       mem_busy := mem_latency (dsp_mem (display_state d0 tr))\<rparr>"
proof -
  have "bit (0x80 OR a :: byte) 7" for a
    using bit_exp_iff [where ?'a = byte, of 7 7] by (simp add: bit_or_iff)
  moreover have "(0x80 OR a) AND 0x7f = a AND 0x7f" for a :: byte
  proof -
    have b: "bit (0x80 :: int) n \<longleftrightarrow> n = 7" for n
      using bit_exp_iff [where ?'a = int, of 7 n] by auto
    have b': "bit (0x80 :: byte) n \<longleftrightarrow> n = 7" for n
      using bit_exp_iff [where ?'a = byte, of 7 n] by auto
    have m: "(0x7f :: byte) = mask 7" by (simp add: mask_eq_exp_minus_1)
    show ?thesis unfolding m
      by (rule bit_word_eqI) (auto simp: bit_simps b b')
  qed
  ultimately show ?thesis
    using display_send_byte [OF assms, of 0 "0x80 OR ((if y = 1 then 0 else 0x40) + x - 1)"]
    unfolding lcd_gotoxy_eq by (simp add: dsp_execute_def)
qed

lemma display_ready_nibble_pair:
  assumes "\<not> line_rw (dsp_lines d)" and "\<not> line_enable (dsp_lines d)"
    and "dsp_high d = None" and "dsp_low d = None"
  shows "display_ready (foldl display_step d (send_nibble_ops a @ send_nibble_ops b))"
    and "\<not> line_rw (dsp_lines (foldl display_step d (send_nibble_ops a @ send_nibble_ops b)))"
  using assms
  by (simp_all add: display_steps_send_nibble display_ready_def)

lemma display_init_prefix:
  "display_ready (display_state (display_power_on latency) init_prefix_ops)"
proof -
  let ?d = "display_power_on latency"
  have 1: "foldl display_step ?d [Output_drive LCD_DATA4, Output_drive LCD_DATA5,
      Output_drive LCD_DATA6, Output_drive LCD_DATA7, Output_drive LCD_ENABLE_PIN,
      Output_drive LCD_RS_PIN, Output_drive LCD_RW_PIN, Output_bit LCD_RS_PIN False,
      Output_bit LCD_RW_PIN False, Output_bit LCD_ENABLE_PIN False, Delay_ms 15] = ?d"
    by (simp add: display_power_on_def all_low_def Let_def)
  have d: "\<not> line_rw (dsp_lines ?d)" "\<not> line_enable (dsp_lines ?d)"
    "dsp_high ?d = None" "dsp_low ?d = None"
    by (simp_all add: display_power_on_def all_low_def)
  let ?d1 = "foldl display_step ?d (send_nibble_ops 3 @ send_nibble_ops 3)"
  have r1: "display_ready ?d1" "\<not> line_rw (dsp_lines ?d1)"
    using d by (rule display_ready_nibble_pair)+
  from r1 have "\<not> line_enable (dsp_lines ?d1)" "dsp_high ?d1 = None" "dsp_low ?d1 = None"
    by (simp_all add: display_ready_def)
  with r1(2)
  have "display_ready (foldl display_step ?d1 (send_nibble_ops 3 @ send_nibble_ops 2))"
    by (rule display_ready_nibble_pair(1))
  moreover have "display_state ?d init_prefix_ops =
      foldl display_step ?d1 (send_nibble_ops 3 @ send_nibble_ops 2)"
    unfolding display_state_def init_prefix_ops_def foldl_append 1 by simp
  ultimately show ?thesis by simp
qed

lemma display_init:
  "\<exists>t. lcd_init (display_device (display_power_on latency)) [] = Some t \<and>
    display_ready (display_state (display_power_on latency) t)"
proof -
  let ?d0 = "display_power_on latency"
  let ?D = "display_device ?d0"
  from display_send_byte [OF display_init_prefix, of latency 0 "0x28"] obtain t1 where
    1: "lcd_send_byte ?D 0 0x28 init_prefix_ops = Some t1" "display_ready (display_state ?d0 t1)"
    by auto
  from display_send_byte [OF 1(2), of 0 "0xc"] obtain t2 where
    2: "lcd_send_byte ?D 0 0xc t1 = Some t2" "display_ready (display_state ?d0 t2)"
    by auto
  from display_send_byte [OF 2(2), of 0 1] obtain t3 where
    3: "lcd_send_byte ?D 0 1 t2 = Some t3" "display_ready (display_state ?d0 t3)"
    by auto
  from display_send_byte [OF 3(2), of 0 6] obtain t4 where
    4: "lcd_send_byte ?D 0 6 t3 = Some t4" "display_ready (display_state ?d0 t4)"
    by auto
  have "lcd_init ?D [] = Some t4"
    by (simp add: lcd_init_eq lcd_init_string_eq 1 2 3 4 del: lcd_init_string.simps)
  with 4(2) show ?thesis by blast
qed

section \<open>The busy-wait as a sequence of reads\<close>

lemma polls_Suc_right: "polls D (Suc k) tr = snd (lcd_read_byte D (polls D k tr))"
  by (induction k arbitrary: tr) simp_all

lemma busy_at_poll_byte: "busy_at D k tr = bit (poll_byte D tr k) 7"
  by (simp add: busy_at_def poll_byte_def)

lemma polls_read_blocks: "polls D k tr = tr @ read_blocks (map (poll_byte D tr) [0..<k])"
proof (induction k)
  case 0
  then show ?case by simp
next
  case (Suc k)
  obtain b where b: "lcd_read_byte D (polls D k tr) = (b, polls D k tr @ read_ops b)"
    using lcd_read_byte_trace by blast
  then have "poll_byte D tr k = b" by (simp add: poll_byte_def)
  with b Suc show ?case
    by (simp add: polls_Suc_right read_blocks_append del: polls.simps)
qed

lemma busy_wait_iff:
  "(busy_wait D tr = Some tr') =
    (\<exists>k. (\<forall>j<k. busy_at D j tr) \<and> \<not> busy_at D k tr \<and> tr' = polls D (Suc k) tr)"
  using busy_wait_sound [of D tr tr'] busy_wait_complete [of _ D tr] by auto

lemma lcd_send_byte_iff:
  "(lcd_send_byte D address n tr = Some tr') =
    (\<exists>k. (\<forall>j<k. bit (poll_byte D (tr @ [Output_bit LCD_RS_PIN False]) j) 7) \<and>
       \<not> bit (poll_byte D (tr @ [Output_bit LCD_RS_PIN False]) k) 7 \<and>
       tr' = tr @ [Output_bit LCD_RS_PIN False] @
         read_blocks (map (poll_byte D (tr @ [Output_bit LCD_RS_PIN False])) [0..<Suc k]) @
         transfer_ops address n)"
proof -
  let ?t0 = "tr @ [Output_bit LCD_RS_PIN False]"
  have "(lcd_send_byte D address n tr = Some tr') =
      (\<exists>t. busy_wait D ?t0 = Some t \<and> tr' = t @ transfer_ops address n)"
    by (auto simp: lcd_send_byte_eq split: option.splits)
  also have "\<dots> = (\<exists>k. (\<forall>j<k. busy_at D j ?t0) \<and> \<not> busy_at D k ?t0 \<and>
      tr' = polls D (Suc k) ?t0 @ transfer_ops address n)"
    unfolding busy_wait_iff by blast
  also have "\<dots> = (\<exists>k. (\<forall>j<k. bit (poll_byte D ?t0 j) 7) \<and> \<not> bit (poll_byte D ?t0 k) 7 \<and>
      tr' = tr @ [Output_bit LCD_RS_PIN False] @
        read_blocks (map (poll_byte D ?t0) [0..<Suc k]) @ transfer_ops address n)"
    unfolding busy_at_poll_byte polls_read_blocks by simp
  finally show ?thesis .
qed

lemma drives_read_ops: "filter drives_data_or_rs (read_ops b) = map Output_drive data_pins"
  by (simp add: read_ops_def read_ops_defs read_nibble_ops_def data_pins_def)

lemma lcd_init_returns:
  assumes "\<forall>t. \<exists>k. \<not> busy_at D k t"
  shows "lcd_init D tr \<noteq> None"
proof -
  have s: "\<exists>t'. lcd_send_byte D address n t = Some t'" for address n t
    using lcd_send_byte_returns_iff [of D address n t] assms by auto
  obtain t1 where 1: "lcd_send_byte D 0 0x28 (tr @ init_prefix_ops) = Some t1" using s by blast
  obtain t2 where 2: "lcd_send_byte D 0 0xc t1 = Some t2" using s by blast
  obtain t3 where 3: "lcd_send_byte D 0 1 t2 = Some t3" using s by blast
  obtain t4 where 4: "lcd_send_byte D 0 6 t3 = Some t4" using s by blast
  show ?thesis
    by (simp add: lcd_init_eq lcd_init_string_eq 1 2 3 4 del: lcd_init_string.simps)
qed

section \<open>A display that is busy for a number of reads\<close>

lemma d7_inputs_append: "d7_inputs (xs @ ys) = d7_inputs xs + d7_inputs ys"
  by (induction xs rule: d7_inputs.induct) auto

lemma d7_inputs_read_ops: "d7_inputs (read_ops b) = 2"
  by (simp add: read_ops_def read_ops_defs read_nibble_ops_def)

lemma busy_device_read_busy:
  assumes "d7_inputs tr + 2 \<le> 2 * n"
  shows "lcd_read_byte (busy_device n) tr = (0x88, tr @ read_ops 0x88)"
proof -
  have 1: "lcd_read_nibble (busy_device n) (tr @ read_pre_ops) =
      (8 AND 0xf, (tr @ read_pre_ops) @ read_nibble_ops 8)"
    using assms by (intro lcd_read_nibble_of)
      (simp_all add: busy_device_def d7_inputs_append read_pre_ops_def)
  have 2: "lcd_read_nibble (busy_device n)
        (((tr @ read_pre_ops) @ read_nibble_ops 8) @ read_mid_ops) =
      (8 AND 0xf, (((tr @ read_pre_ops) @ read_nibble_ops 8) @ read_mid_ops) @ read_nibble_ops 8)"
    using assms by (intro lcd_read_nibble_of)
      (simp_all add: busy_device_def d7_inputs_append read_pre_ops_def read_mid_ops_def
        read_nibble_ops_def)
  show ?thesis
    unfolding lcd_read_byte_alt 1 prod.case 2
    by (simp add: read_ops_def read_byte_ops_def)
qed

lemma busy_device_read_idle:
  assumes "2 * n \<le> d7_inputs tr"
  shows "lcd_read_byte (busy_device n) tr = (0, tr @ read_ops 0)"
proof -
  have 1: "lcd_read_nibble (busy_device n) (tr @ read_pre_ops) =
      (0 AND 0xf, (tr @ read_pre_ops) @ read_nibble_ops 0)"
    using assms by (intro lcd_read_nibble_of)
      (simp_all add: busy_device_def d7_inputs_append read_pre_ops_def)
  have 2: "lcd_read_nibble (busy_device n)
        (((tr @ read_pre_ops) @ read_nibble_ops 0) @ read_mid_ops) =
      (0 AND 0xf, (((tr @ read_pre_ops) @ read_nibble_ops 0) @ read_mid_ops) @ read_nibble_ops 0)"
    using assms by (intro lcd_read_nibble_of)
      (simp_all add: busy_device_def d7_inputs_append read_pre_ops_def read_mid_ops_def
        read_nibble_ops_def)
  show ?thesis
    unfolding lcd_read_byte_alt 1 prod.case 2
    by (simp add: read_ops_def read_byte_ops_def)
qed

lemma d7_inputs_polls: "d7_inputs (polls D k tr) = d7_inputs tr + 2 * k"
  by (simp add: polls_read_blocks d7_inputs_append)
    (induction k, simp_all add: read_blocks_append d7_inputs_append d7_inputs_read_ops)

lemma busy_device_ends: "\<not> busy_at (busy_device n) n tr"
  by (simp add: busy_at_def busy_device_read_idle d7_inputs_polls)

lemma busy_device_1_polls:
  assumes "d7_inputs tr = 0"
  shows "poll_byte (busy_device 1) tr 0 = 0x88" and "poll_byte (busy_device 1) tr (Suc 0) = 0"
proof -
  show 0: "poll_byte (busy_device 1) tr 0 = 0x88"
    using assms by (simp add: poll_byte_def busy_device_read_busy)
  have "polls (busy_device 1) (Suc 0) tr = tr @ read_ops 0x88"
    using assms by (simp add: busy_device_read_busy)
  then show "poll_byte (busy_device 1) tr (Suc 0) = 0"
    using assms
    by (simp add: poll_byte_def busy_device_read_idle d7_inputs_append d7_inputs_read_ops
        del: polls.simps)
qed

section \<open>Writing and reading the character memory\<close>

lemma and_0x7f_of_nat:
  assumes "a < 128"
  shows "(of_nat a :: byte) AND 0x7f = of_nat a"
proof -
  have m: "(0x7f :: byte) = mask 7" by (simp add: mask_eq_exp_minus_1)
  have "take_bit 7 a = a" using assms by (simp add: take_bit_nat_eq_self_iff)
  then have "take_bit 7 (of_nat a :: byte) = of_nat a"
    by (simp add: take_bit_of_nat)
  then show ?thesis unfolding m by (simp add: take_bit_eq_mask)
qed

lemma valid_cell:
  assumes "valid_position x y"
  shows "((if y = 1 then 0 else 0x40) + x - 1) AND 0x7f =
    (of_nat (spec_address (unat x) (unat y)) :: byte)"
proof -
  from assms have y: "y = 1 \<or> y = 2" and x: "1 \<le> unat x" "unat x \<le> 0x40"
    by (simp_all add: valid_position_def)
  have "spec_address (unat x) (unat y) < 128"
    using x y by (auto simp: spec_address_def spec_offset_def)
  then show ?thesis
    unfolding gotoxy_spec_address [OF y x(1)] by (rule and_0x7f_of_nat)
qed

lemma display_getc:
  assumes "display_ready (display_state d0 tr)"
  shows "\<exists>t. lcd_getc (display_device d0) x y tr =
      Some (mem_ram (dsp_mem (display_state d0 tr))
        (((if y = 1 then 0 else 0x40) + x - 1) AND 0x7f), t) \<and>
    display_ready (display_state d0 t) \<and>
    mem_ram (dsp_mem (display_state d0 t)) = mem_ram (dsp_mem (display_state d0 tr))"
proof -
  let ?D = "display_device d0"
  let ?A = "((if y = 1 then 0 else 0x40) + x - 1) AND 0x7f"
  from display_gotoxy [OF assms, of x y] obtain t3 where
    g2: "lcd_gotoxy ?D x y tr = Some t3" and r3: "display_ready (display_state d0 t3)" and
    rs3: "\<not> line_rs (dsp_lines (display_state d0 t3))" and
    m3: "mem_addr (dsp_mem (display_state d0 t3)) = ?A"
      "mem_ram (dsp_mem (display_state d0 t3)) = mem_ram (dsp_mem (display_state d0 tr))"
    by auto
  from display_busy_wait [OF r3 rs3] obtain t4 where
    w: "busy_wait ?D t3 = Some t4" and
    s4: "display_state d0 t4 =
        (display_state d0 t3)\<lparr>dsp_lines := (dsp_lines (display_state d0 t3))
            \<lparr>line_rw := True, line_enable := False\<rparr>,
          dsp_out := (mem_addr (dsp_mem (display_state d0 t3)) AND 0x7f) AND 0xf,
          dsp_mem := (dsp_mem (display_state d0 t3))\<lparr>mem_busy := 0\<rparr>\<rparr>"
    by auto
  let ?t5 = "t4 @ [Output_bit LCD_RS_PIN True]"
  have s5: "display_state d0 ?t5 =
      (display_state d0 t4)\<lparr>dsp_lines := (dsp_lines (display_state d0 t4))\<lparr>line_rs := True\<rparr>\<rparr>"
    unfolding display_state_append by (simp add: Let_def)
  have r5: "display_ready (display_state d0 ?t5)"
    unfolding s5 s4 using r3 by (simp add: display_ready_def)
  let ?v = "mem_ram (dsp_mem (display_state d0 tr)) ?A"
  have v: "lcd_read_byte ?D ?t5 = (?v, ?t5 @ read_ops ?v)"
    unfolding display_read_byte [OF r5] s5 s4
    by (simp add: dsp_register_def m3 read_ops_def)
  let ?t6 = "?t5 @ read_ops ?v"
  have s6: "display_state d0 ?t6 =
      (display_state d0 ?t5)\<lparr>dsp_lines := (dsp_lines (display_state d0 ?t5))
          \<lparr>line_rw := True, line_enable := False\<rparr>,
        dsp_out := dsp_register (line_rs (dsp_lines (display_state d0 ?t5)))
          (dsp_mem (display_state d0 ?t5)) AND 0xf,
        dsp_mem := dsp_read_done (line_rs (dsp_lines (display_state d0 ?t5)))
          (dsp_mem (display_state d0 ?t5))\<rparr>"
    unfolding read_ops_def by (rule display_state_read_byte [OF r5])
  let ?t7 = "?t6 @ [Output_bit LCD_RS_PIN False]"
  have s7: "display_state d0 ?t7 =
      (display_state d0 ?t6)\<lparr>dsp_lines := (dsp_lines (display_state d0 ?t6))\<lparr>line_rs := False\<rparr>\<rparr>"
    unfolding display_state_append [of d0 ?t6] by (simp add: Let_def)
  have g: "lcd_getc ?D x y tr = Some (?v, ?t7)"
    using v by (simp add: lcd_getc_def g2 w Let_def lcd_output_rs_def output_bit_def)
  have r7: "display_ready (display_state d0 ?t7)"
    unfolding s7 s6 using r5 by (simp add: display_ready_def)
  have m7: "mem_ram (dsp_mem (display_state d0 ?t7)) = mem_ram (dsp_mem (display_state d0 tr))"
    unfolding s7 s6 s5 s4 by (simp add: dsp_read_done_def m3)
  from g r7 m7 show ?thesis by blast
qed

lemma display_gotoxy_putc:
  assumes "display_ready (display_state d0 tr)" and "printable c"
  shows "\<exists>t1 t2. lcd_gotoxy (display_device d0) x y tr = Some t1 \<and>
    lcd_putc (display_device d0) c t1 = Some t2 \<and>
    display_ready (display_state d0 t2) \<and>
    mem_ram (dsp_mem (display_state d0 t2)) =
      (mem_ram (dsp_mem (display_state d0 tr)))
        (((if y = 1 then 0 else 0x40) + x - 1) AND 0x7f := c)"
proof -
  let ?D = "display_device d0"
  let ?A = "((if y = 1 then 0 else 0x40) + x - 1) AND 0x7f"
  from display_gotoxy [OF assms(1), of x y] obtain t1 where
    g1: "lcd_gotoxy ?D x y tr = Some t1" and r1: "display_ready (display_state d0 t1)" and
    m1: "mem_addr (dsp_mem (display_state d0 t1)) = ?A"
      "mem_ram (dsp_mem (display_state d0 t1)) = mem_ram (dsp_mem (display_state d0 tr))"
    by auto
  from assms(2) have c: "c \<noteq> 0x0C" "c \<noteq> 0x0A" "c \<noteq> 0x08"
    by (auto simp: printable_def)
  from display_send_byte [OF r1, of 1 c] obtain t2 where
    p: "lcd_putc ?D c t1 = Some t2" and r2: "display_ready (display_state d0 t2)" and
    m2: "mem_ram (dsp_mem (display_state d0 t2)) =
      (mem_ram (dsp_mem (display_state d0 tr)))(?A := c)"
    using c m1 by (auto simp: lcd_putc_def dsp_execute_def)
  from g1 p r2 m2 show ?thesis by blast
qed

section \<open>The claims\<close>

text \<open>
  C1, as the code has it. \<^verbatim>\<open>lcd_gotoxy\<close> has no way to reject a call. For a row
  outside 1 and 2, or for column 0, it sends one address command as soon as its
  busy-wait ends: \<open>0x80 | 0xFF\<close> for column 0 of row 1, and otherwise
  \<open>0x80 | (0x40 + x - 1)\<close> in 8-bit arithmetic, every row other than 1 being
  addressed as row 2.
\<close>

theorem lcd_gotoxy_invalid_position:
  fixes x y :: byte
  assumes "(y \<noteq> 1 \<and> y \<noteq> 2) \<or> x = 0"
  shows "sent_bytes L tr (lcd_gotoxy D x y tr) =
      map_option (\<lambda>t. [(False, 0x80 OR (if y = 1 then 0xFF else 0x40 + x - 1))])
        (busy_wait D (tr @ [Output_bit LCD_RS_PIN False])) \<and>
    (y \<noteq> 1 \<longrightarrow> lcd_gotoxy D x y tr = lcd_gotoxy D x 2 tr) \<and>
    (busy_wait D (tr @ [Output_bit LCD_RS_PIN False]) \<noteq> None \<longrightarrow> lcd_gotoxy D x y tr \<noteq> None)"
proof -
  have "(if y = 1 then 0 else 0x40) + x - 1 = (if y = 1 then 0xFF else 0x40 + x - 1)"
    using assms by auto
  then have "sent_bytes L tr (lcd_gotoxy D x y tr) =
      map_option (\<lambda>t. [(False, 0x80 OR (if y = 1 then 0xFF else 0x40 + x - 1))])
        (busy_wait D (tr @ [Output_bit LCD_RS_PIN False]))"
    unfolding lcd_gotoxy_eq by (simp add: sent_bytes_send_byte)
  moreover have "y \<noteq> 1 \<longrightarrow> lcd_gotoxy D x y tr = lcd_gotoxy D x 2 tr"
    by (simp add: lcd_gotoxy_eq)
  moreover have "busy_wait D (tr @ [Output_bit LCD_RS_PIN False]) \<noteq> None \<longrightarrow>
      lcd_gotoxy D x y tr \<noteq> None"
    by (simp add: lcd_gotoxy_eq lcd_send_byte_eq split: option.splits)
  ultimately show ?thesis by blast
qed

theorem lcd_gotoxy_invalid_position_witness:
  "sent_bytes all_low [] (lcd_gotoxy idle_device 5 0 []) = Some [(False, 0xC4)] \<and>
   lcd_gotoxy idle_device 5 0 [] = lcd_gotoxy idle_device 5 2 [] \<and>
   lcd_gotoxy idle_device 5 0 [] \<noteq> None"
proof -
  have h: "((0 :: byte) \<noteq> 1 \<and> (0 :: byte) \<noteq> 2) \<or> (5 :: byte) = 0" by simp
  note t = lcd_gotoxy_invalid_position [OF h, of all_low "[]" idle_device]
  from t [THEN conjunct1]
  have "sent_bytes all_low [] (lcd_gotoxy idle_device 5 0 []) = Some [(False, 0xC4)]"
    by (simp add: idle_busy_wait)
  moreover from t [THEN conjunct2, THEN conjunct1]
  have "lcd_gotoxy idle_device 5 0 [] = lcd_gotoxy idle_device 5 2 []"
    by simp
  moreover from t [THEN conjunct2, THEN conjunct2]
  have "lcd_gotoxy idle_device 5 0 [] \<noteq> None"
    by (simp add: idle_busy_wait)
  ultimately show ?thesis by blast
qed

text \<open>
  C1 as stated fails. Against a display that is never busy, the call for row 3
  returns and has sent the address command of the first cell of row 2; the calls for
  column 0 return and have sent the addresses 0x3F and 0x7F.
\<close>

theorem lcd_gotoxy_rejects_counterexample:
  "sent_bytes all_low [] (lcd_gotoxy idle_device 1 3 []) = Some [(False, 0xC0)] \<and>
   sent_bytes all_low [] (lcd_gotoxy idle_device 0 2 []) = Some [(False, 0xBF)] \<and>
   sent_bytes all_low [] (lcd_gotoxy idle_device 0 1 []) = Some [(False, 0xFF)]"
  by (simp add: lcd_gotoxy_eq sent_bytes_send_byte idle_busy_wait)

text \<open>
  C2, as the code has it. From a state in which Enable is low, and against a display
  on which every busy-wait ends (after every trace some read of the command register
  finds the busy flag clear), \<^verbatim>\<open>lcd_init\<close> returns, and it has put on the bus the
  four single nibbles 3, 3, 3 and 2 and then exactly four bytes, each as two nibbles
  with register-select low: 0x28, 0x0C, 0x01 and 0x06, the elements of
  \<^verbatim>\<open>LCD_INIT_STRING\<close> in order. The clear-display command 0x01 is the third byte
  and 0x06 the fourth. The witness is a display that is busy at the first read.
\<close>

theorem lcd_init_string_order:
  assumes "\<not> line_enable (levels L tr)" and "\<forall>t. \<exists>k. \<not> busy_at D k t"
  shows "lcd_init D tr \<noteq> None \<and>
    sent_nibbles L tr (lcd_init D tr) =
      Some [(False, 3), (False, 3), (False, 3), (False, 2), (False, 2), (False, 8), (False, 0),
        (False, 0xc), (False, 0), (False, 1), (False, 0), (False, 6)] \<and>
    map_option (\<lambda>ns. bus_bytes (drop 4 ns)) (sent_nibbles L tr (lcd_init D tr)) =
      Some [(False, 0x28), (False, 0x0c), (False, clear_display), (False, 6)] \<and>
    map snd [(False, 0x28), (False, 0x0c), (False, clear_display), (False, 6)] = LCD_INIT_STRING"
proof -
  from lcd_init_returns [OF assms(2), of tr] obtain tr' where r: "lcd_init D tr = Some tr'"
    by blast
  show ?thesis
    using bus_nibbles_init [OF assms(1) r]
    by (simp add: sent_nibbles_def r clear_display_def LCD_INIT_STRING_def LCD_TYPE_def)
qed

theorem lcd_init_string_order_witness:
  "\<not> line_enable (levels all_low []) \<and> lcd_init (busy_device 1) [] \<noteq> None \<and>
   map_option (\<lambda>ns. bus_bytes (drop 4 ns))
     (sent_nibbles all_low [] (lcd_init (busy_device 1) [])) =
      Some [(False, 0x28), (False, 0x0c), (False, 1), (False, 6)]"
proof -
  have e: "\<not> line_enable (levels all_low [])" by (simp add: all_low_def)
  have d: "\<forall>t. \<exists>k. \<not> busy_at (busy_device 1) k t"
    using busy_device_ends [of 1] by blast
  from lcd_init_string_order [OF e d] e show ?thesis by (simp add: clear_display_def)
qed

text \<open>
  C2 as stated fails: the last byte that \<^verbatim>\<open>lcd_init\<close> sends is 6, which is not
  the clear-display command; clear-display is sent third.
\<close>

theorem lcd_init_order_counterexample:
  "map_option (\<lambda>ns. bus_bytes (drop 4 ns)) (sent_nibbles all_low [] (lcd_init idle_device [])) =
      Some [(False, 0x28), (False, 0x0c), (False, clear_display), (False, 6)] \<and>
   (6 :: byte) \<noteq> clear_display"
proof -
  have e: "\<not> line_enable (levels all_low [])" by (simp add: all_low_def)
  obtain t where t: "lcd_init idle_device [] = Some t" using idle_init [of "[]"] by blast
  from bus_nibbles_init [OF e t] show ?thesis
    by (simp add: sent_nibbles_def t clear_display_def)
qed

text \<open>
  C3. \<^verbatim>\<open>lcd_send_byte\<close> returns the trace \<open>tr'\<close> exactly when, for some \<open>k\<close>, the
  first \<open>k\<close> runs of \<^verbatim>\<open>lcd_read_byte\<close> after register-select has been driven low
  read a byte with bit 7 set, the next one reads a byte with bit 7 clear, and \<open>tr'\<close>
  is: register-select low, these \<open>k + 1\<close> reads, and only then register-select at
  the caller's value, read/write low, and the two nibbles of the byte. The only
  operations of a read that drive a data line or register-select are the four
  \<^verbatim>\<open>output_drive\<close> that end it, and they set no level: after register-select low
  and any number of reads, the levels of the data lines are those at the call,
  register-select is low, read/write is high, and no nibble has been latched. In
  the witness the display is busy at the first read and the call returns after the
  second.
\<close>

theorem lcd_send_byte_polls_first:
  "(lcd_send_byte D address n tr = Some tr') =
    (\<exists>k. (\<forall>j<k. bit (poll_byte D (tr @ [Output_bit LCD_RS_PIN False]) j) 7) \<and>
       \<not> bit (poll_byte D (tr @ [Output_bit LCD_RS_PIN False]) k) 7 \<and>
       tr' = tr @ [Output_bit LCD_RS_PIN False] @
         read_blocks (map (poll_byte D (tr @ [Output_bit LCD_RS_PIN False])) [0..<Suc k]) @
         transfer_ops address n) \<and>
   filter drives_data_or_rs (read_ops b) = map Output_drive data_pins \<and>
   levels L (tr @ [Output_bit LCD_RS_PIN False] @ read_blocks (b # bs)) =
     (levels L tr)\<lparr>line_rs := False, line_rw := True, line_enable := False\<rparr> \<and>
   bus_nibbles L (tr @ [Output_bit LCD_RS_PIN False] @ read_blocks bs) = bus_nibbles L tr"
proof -
  have "levels L (tr @ [Output_bit LCD_RS_PIN False] @ read_blocks (b # bs)) =
     (levels L tr)\<lparr>line_rs := False, line_rw := True, line_enable := False\<rparr>"
    using levels_read_blocks [of "(levels L tr)\<lparr>line_rs := False\<rparr>" "b # bs"]
    by (simp add: levels_append)
  moreover have "bus_nibbles L (tr @ [Output_bit LCD_RS_PIN False] @ read_blocks bs) =
      bus_nibbles L tr"
    by (simp add: bus_nibbles_append bus_nibbles_read_blocks)
  ultimately show ?thesis
    using lcd_send_byte_iff [of D address n tr tr'] drives_read_ops [of b] by blast
qed

theorem lcd_send_byte_polls_first_witness:
  "lcd_send_byte (busy_device 1) 1 0x41 [] =
     Some ([Output_bit LCD_RS_PIN False] @ read_ops 0x88 @ read_ops 0 @ transfer_ops 1 0x41) \<and>
   bit (0x88 :: byte) 7 \<and> \<not> bit (0 :: byte) 7"
proof -
  let ?t0 = "[Output_bit LCD_RS_PIN False]"
  let ?tr' = "[Output_bit LCD_RS_PIN False] @ read_ops 0x88 @ read_ops 0 @ transfer_ops 1 0x41"
  have p: "poll_byte (busy_device 1) ?t0 0 = 0x88" "poll_byte (busy_device 1) ?t0 (Suc 0) = 0"
    by (rule busy_device_1_polls, simp)+
  have b: "bit (0x88 :: byte) 7"
    by (simp add: bit_iff_odd)
  have "map (poll_byte (busy_device 1) ?t0) [0..<Suc (Suc 0)] = [0x88, 0]"
    by (simp add: p upt_rec del: upt_Suc One_nat_def)
  then have "?tr' = ?t0 @ read_blocks (map (poll_byte (busy_device 1) ?t0) [0..<Suc (Suc 0)]) @
      transfer_ops 1 0x41"
    by (simp only: read_blocks.simps append_Nil2 append_assoc)
  moreover have "\<forall>j<Suc 0. bit (poll_byte (busy_device 1) ?t0 j) 7"
  proof (intro allI impI)
    fix j :: nat
    assume "j < Suc 0"
    then have "j = 0" by simp
    then show "bit (poll_byte (busy_device 1) ?t0 j) 7"
      using b by (simp only: p(1))
  qed
  moreover have "\<not> bit (poll_byte (busy_device 1) ?t0 (Suc 0)) 7"
    unfolding p(2) by simp
  ultimately have "lcd_send_byte (busy_device 1) 1 0x41 [] = Some ?tr'"
    using lcd_send_byte_polls_first [of "busy_device 1" 1 "0x41" "[]" ?tr', unfolded append_Nil]
    by blast
  with b show ?thesis by simp
qed

text \<open>
  C4. For a valid position, a row \<open>y\<close> of 1 or 2 and a column \<open>x\<close> from 1 to 0x40,
  \<^verbatim>\<open>lcd_gotoxy\<close> sends, when its busy-wait ends, the single command byte
  \<open>0x80 | address\<close> with \<open>address = offset(y) + x - 1\<close>; the value of the byte is
  \<open>0x80 + address\<close>. Column 1 of row 1 has address 0 and column 1 of row 2 has
  address 0x40.
\<close>

theorem lcd_gotoxy_address:
  assumes "valid_position x y"
  shows "sent_bytes L tr (lcd_gotoxy D x y tr) =
      map_option (\<lambda>t. [(False, 0x80 OR of_nat (spec_address (unat x) (unat y)))])
        (busy_wait D (tr @ [Output_bit LCD_RS_PIN False])) \<and>
    unat (0x80 OR of_nat (spec_address (unat x) (unat y)) :: byte) =
      0x80 + spec_address (unat x) (unat y) \<and>
    spec_address 1 1 = 0 \<and> spec_address 1 2 = 0x40"
proof -
  from assms have v: "y = 1 \<or> y = 2" "1 \<le> unat x" "spec_address (unat x) (unat y) < 0x80"
    by (auto simp: valid_position_def spec_address_def spec_offset_def)
  have "sent_bytes L tr (lcd_gotoxy D x y tr) =
      map_option (\<lambda>t. [(False, 0x80 OR of_nat (spec_address (unat x) (unat y)))])
        (busy_wait D (tr @ [Output_bit LCD_RS_PIN False]))"
    unfolding lcd_gotoxy_eq gotoxy_spec_address [OF v(1,2)]
    by (simp add: sent_bytes_send_byte)
  moreover note or_0x80 [OF v(3)]
  moreover have "spec_address 1 1 = 0" "spec_address 1 2 = 0x40"
    by (simp_all add: spec_address_def spec_offset_def)
  ultimately show ?thesis by simp
qed

theorem lcd_gotoxy_address_witness:
  "valid_position 1 2 \<and> valid_position 1 1 \<and> valid_position 16 2 \<and>
   sent_bytes all_low [] (lcd_gotoxy idle_device 1 2 []) = Some [(False, 0xC0)] \<and>
   sent_bytes all_low [] (lcd_gotoxy idle_device 1 1 []) = Some [(False, 0x80)] \<and>
   sent_bytes all_low [] (lcd_gotoxy idle_device 16 2 []) = Some [(False, 0xCF)]"
proof -
  have v: "valid_position 1 2" "valid_position 1 1" "valid_position 16 2"
    by (simp_all add: valid_position_def)
  have "sent_bytes all_low [] (lcd_gotoxy idle_device 1 2 []) = Some [(False, 0xC0)]"
    using lcd_gotoxy_address [OF v(1), of all_low "[]" idle_device]
    by (simp add: spec_address_def spec_offset_def idle_busy_wait)
  moreover have "sent_bytes all_low [] (lcd_gotoxy idle_device 1 1 []) = Some [(False, 0x80)]"
    using lcd_gotoxy_address [OF v(2), of all_low "[]" idle_device]
    by (simp add: spec_address_def spec_offset_def idle_busy_wait)
  moreover have "sent_bytes all_low [] (lcd_gotoxy idle_device 16 2 []) = Some [(False, 0xCF)]"
    using lcd_gotoxy_address [OF v(3), of all_low "[]" idle_device]
    by (simp add: spec_address_def spec_offset_def idle_busy_wait)
  ultimately show ?thesis using v by simp
qed

text \<open>
  C5. Against the model of the display, in any state in which it is ready and
  whatever its busy period, for every valid position and every printable character
  \<open>c\<close>: \<^verbatim>\<open>lcd_gotoxy\<close> to the position, \<^verbatim>\<open>lcd_putc\<close> of \<open>c\<close> and
  \<^verbatim>\<open>lcd_getc\<close> at the same position all return, and \<^verbatim>\<open>lcd_getc\<close> returns \<open>c\<close>.
  \<^verbatim>\<open>lcd_getc\<close> reads the display: in any ready state it returns the character
  that the memory of the display holds at the address of the position,
  \<open>offset(y) + x - 1\<close>, and leaves the memory as it was. \<^verbatim>\<open>lcd_gotoxy\<close> followed
  by \<^verbatim>\<open>lcd_putc\<close> of \<open>c\<close> changes the memory at that address to \<open>c\<close> and nowhere
  else. The witness starts from the display at power-on, runs \<^verbatim>\<open>lcd_init\<close>,
  writes 0x41 at column 3 of row 2 and then 0x42 at column 5 of row 1, and reads
  0x41 back at column 3 of row 2.
\<close>

theorem putc_getc_round_trip:
  assumes "display_ready (display_state d0 tr)"
    and "valid_position x y" and "printable c"
  shows "Option.bind (lcd_gotoxy (display_device d0) x y tr) (\<lambda>t1.
         Option.bind (lcd_putc (display_device d0) c t1) (\<lambda>t2.
         map_option fst (lcd_getc (display_device d0) x y t2))) = Some c \<and>
    (\<exists>t. lcd_getc (display_device d0) x y tr =
        Some (mem_ram (dsp_mem (display_state d0 tr))
          (of_nat (spec_address (unat x) (unat y))), t) \<and>
      display_ready (display_state d0 t) \<and>
      mem_ram (dsp_mem (display_state d0 t)) = mem_ram (dsp_mem (display_state d0 tr))) \<and>
    (\<exists>t1 t2. lcd_gotoxy (display_device d0) x y tr = Some t1 \<and>
      lcd_putc (display_device d0) c t1 = Some t2 \<and>
      display_ready (display_state d0 t2) \<and>
      mem_ram (dsp_mem (display_state d0 t2)) =
        (mem_ram (dsp_mem (display_state d0 tr)))(of_nat (spec_address (unat x) (unat y)) := c))"
proof -
  let ?D = "display_device d0"
  let ?A = "of_nat (spec_address (unat x) (unat y)) :: byte"
  note cell = valid_cell [OF assms(2)]
  have rd: "\<exists>t. lcd_getc ?D x y tr = Some (mem_ram (dsp_mem (display_state d0 tr)) ?A, t) \<and>
      display_ready (display_state d0 t) \<and>
      mem_ram (dsp_mem (display_state d0 t)) = mem_ram (dsp_mem (display_state d0 tr))"
    using display_getc [OF assms(1), of x y] unfolding cell .
  have wr: "\<exists>t1 t2. lcd_gotoxy ?D x y tr = Some t1 \<and> lcd_putc ?D c t1 = Some t2 \<and>
      display_ready (display_state d0 t2) \<and>
      mem_ram (dsp_mem (display_state d0 t2)) = (mem_ram (dsp_mem (display_state d0 tr)))(?A := c)"
    using display_gotoxy_putc [OF assms(1,3), of x y] unfolding cell .
  from wr obtain t1 t2 where
    g: "lcd_gotoxy ?D x y tr = Some t1" and p: "lcd_putc ?D c t1 = Some t2" and
    r2: "display_ready (display_state d0 t2)" and
    m2: "mem_ram (dsp_mem (display_state d0 t2)) = (mem_ram (dsp_mem (display_state d0 tr)))(?A := c)"
    by blast
  from display_getc [OF r2, of x y] obtain t3 where
    "lcd_getc ?D x y t2 = Some (mem_ram (dsp_mem (display_state d0 t2)) ?A, t3)"
    unfolding cell by blast
  then have "map_option fst (lcd_getc ?D x y t2) = Some c"
    by (simp add: m2)
  then have "Option.bind (lcd_gotoxy ?D x y tr) (\<lambda>t1.
         Option.bind (lcd_putc ?D c t1) (\<lambda>t2. map_option fst (lcd_getc ?D x y t2))) = Some c"
    by (simp add: g p)
  with rd wr show ?thesis by blast
qed

theorem putc_getc_round_trip_witness:
  "valid_position 3 2 \<and> printable 0x41 \<and> valid_position 5 1 \<and> printable 0x42 \<and>
   Option.bind (lcd_init (display_device (display_power_on 2)) []) (\<lambda>t0.
   Option.bind (lcd_gotoxy (display_device (display_power_on 2)) 3 2 t0) (\<lambda>t1.
   Option.bind (lcd_putc (display_device (display_power_on 2)) 0x41 t1) (\<lambda>t2.
   Option.bind (lcd_gotoxy (display_device (display_power_on 2)) 5 1 t2) (\<lambda>t3.
   Option.bind (lcd_putc (display_device (display_power_on 2)) 0x42 t3) (\<lambda>t4.
   map_option fst (lcd_getc (display_device (display_power_on 2)) 3 2 t4)))))) = Some 0x41"
proof -
  let ?d = "display_power_on 2"
  let ?D = "display_device ?d"
  obtain t0 where t0: "lcd_init ?D [] = Some t0"
    and r0: "display_ready (display_state ?d t0)"
    using display_init [of 2] by blast
  have v: "valid_position 3 2" "valid_position 5 1" by (simp_all add: valid_position_def)
  have p: "printable 0x41" "printable 0x42" by (simp_all add: printable_def)
  have a: "(of_nat (spec_address (unat (3 :: byte)) (unat (2 :: byte))) :: byte) = 0x42"
    "(of_nat (spec_address (unat (5 :: byte)) (unat (1 :: byte))) :: byte) = 4"
    by (simp_all add: spec_address_def spec_offset_def)
  from putc_getc_round_trip [OF r0 v(1) p(1)] obtain t1 t2 where
    g1: "lcd_gotoxy ?D 3 2 t0 = Some t1" and p1: "lcd_putc ?D 0x41 t1 = Some t2" and
    r2: "display_ready (display_state ?d t2)" and
    m2: "mem_ram (dsp_mem (display_state ?d t2)) =
      (mem_ram (dsp_mem (display_state ?d t0)))(0x42 := 0x41)"
    unfolding a by blast
  from putc_getc_round_trip [OF r2 v(2) p(2)] obtain t3 t4 where
    g2: "lcd_gotoxy ?D 5 1 t2 = Some t3" and p2: "lcd_putc ?D 0x42 t3 = Some t4" and
    r4: "display_ready (display_state ?d t4)" and
    m4: "mem_ram (dsp_mem (display_state ?d t4)) =
      (mem_ram (dsp_mem (display_state ?d t2)))(4 := 0x42)"
    unfolding a by blast
  from putc_getc_round_trip [OF r4 v(1) p(1)] obtain t5 where
    "lcd_getc ?D 3 2 t4 = Some (mem_ram (dsp_mem (display_state ?d t4)) 0x42, t5)"
    unfolding a by blast
  then have "map_option fst (lcd_getc ?D 3 2 t4) = Some 0x41"
    by (simp add: m4 m2)
  then show ?thesis
    using v p by (simp add: t0 g1 p1 g2 p2)
qed

text \<open>
  C6. Every run of \<^verbatim>\<open>lcd_read_byte\<close> appends the operations \<open>read_ops b\<close> for the
  byte \<open>b\<close> it returns: its first four operations float the four data lines, its
  last four drive them again, and the reads lie between. After the first four
  operations and up to the last four, every data line floats; when the function
  returns, every data line is driven, whatever the display answered and whatever the
  directions were before.
\<close>

theorem lcd_read_byte_restores_drive:
  "\<exists>b. lcd_read_byte D tr = (b, tr @ read_ops b) \<and>
     list_all (\<lambda>p. pin_direction d p (tr @ read_ops b) = Driving) data_pins \<and>
     list_all (\<lambda>k. list_all (\<lambda>p. pin_direction d p (tr @ take k (read_ops b)) = Floating)
       data_pins) [4..<22] \<and>
     take 4 (read_ops b) = map Output_float data_pins \<and>
     drop 21 (read_ops b) = map Output_drive data_pins"
proof -
  obtain b where "lcd_read_byte D tr = (b, tr @ read_ops b)"
    using lcd_read_byte_trace by blast
  moreover have "take 4 (read_ops b) = map Output_float data_pins"
    and "drop 21 (read_ops b) = map Output_drive data_pins"
    by (simp_all add: read_ops_def read_ops_defs read_nibble_ops_def data_pins_def)
  ultimately show ?thesis
    by (intro exI [of _ b])
      (simp add: list_all_iff pin_direction_append data_pin_driving_after_read
        data_pin_floating_during_read read_ops_def)
qed

text \<open>
  C7. \<^verbatim>\<open>lcd_send_byte\<close> returns exactly when some read of its busy-wait finds bit
  7 clear, and otherwise does not return. When it returns it has put exactly two
  more nibbles on the bus, first the high nibble \<open>n >> 4\<close> and then the low nibble
  \<open>n & 0xf\<close>, both with register-select at the caller's value. The trace of the
  call is that of the busy-wait, then register-select, read/write low and Enable
  low, then the operations of \<^verbatim>\<open>lcd_send_nibble\<close> for the high nibble followed by
  those for the low nibble. For 0xAB the bus receives 0xA and then 0xB, also from a
  display that is busy at the first read.
\<close>

theorem lcd_send_byte_high_nibble_first:
  "sent_nibbles L tr (lcd_send_byte D address n tr) =
     (if \<exists>k. \<not> busy_at D k (tr @ [Output_bit LCD_RS_PIN False])
      then Some [(address \<noteq> 0, drop_bit 4 n), (address \<noteq> 0, n AND 0xf)]
      else None) \<and>
   lcd_send_byte D address n tr =
     map_option (\<lambda>t. t @ [Output_bit LCD_RS_PIN (address \<noteq> 0), Delay_cycles 1,
         Output_bit LCD_RW_PIN False, Delay_cycles 1, Output_bit LCD_ENABLE_PIN False] @
         send_nibble_ops (drop_bit 4 n) @ send_nibble_ops (n AND 0xf))
       (busy_wait D (tr @ [Output_bit LCD_RS_PIN False]))"
proof -
  have "(busy_wait D (tr @ [Output_bit LCD_RS_PIN False]) \<noteq> None) =
      (\<exists>k. \<not> busy_at D k (tr @ [Output_bit LCD_RS_PIN False]))"
    by (rule busy_wait_terminates_iff)
  then have "sent_nibbles L tr (lcd_send_byte D address n tr) =
     (if \<exists>k. \<not> busy_at D k (tr @ [Output_bit LCD_RS_PIN False])
      then Some [(address \<noteq> 0, drop_bit 4 n), (address \<noteq> 0, n AND 0xf)]
      else None)"
    unfolding sent_nibbles_send_byte
    by (cases "busy_wait D (tr @ [Output_bit LCD_RS_PIN False])") auto
  moreover have "lcd_send_byte D address n tr =
     map_option (\<lambda>t. t @ [Output_bit LCD_RS_PIN (address \<noteq> 0), Delay_cycles 1,
         Output_bit LCD_RW_PIN False, Delay_cycles 1, Output_bit LCD_ENABLE_PIN False] @
         send_nibble_ops (drop_bit 4 n) @ send_nibble_ops (n AND 0xf))
       (busy_wait D (tr @ [Output_bit LCD_RS_PIN False]))"
    by (simp add: lcd_send_byte_eq transfer_ops_def split: option.splits)
  ultimately show ?thesis by (rule conjI)
qed

theorem lcd_send_byte_high_nibble_first_witness:
  "sent_nibbles all_low [] (lcd_send_byte (busy_device 1) 1 0xAB []) =
     Some [(True, 0xA), (True, 0xB)] \<and>
   lcd_send_byte idle_device 1 0xAB [] =
     Some ([Output_bit LCD_RS_PIN False] @ read_ops 0 @
       [Output_bit LCD_RS_PIN True, Delay_cycles 1, Output_bit LCD_RW_PIN False, Delay_cycles 1,
        Output_bit LCD_ENABLE_PIN False] @ send_nibble_ops 0xA @ send_nibble_ops 0xB)"
proof -
  have e: "\<exists>k. \<not> busy_at (busy_device 1) k ([] @ [Output_bit LCD_RS_PIN False])"
    using busy_device_ends [of 1] by blast
  have n: "drop_bit 4 (0xAB :: byte) = 0xA" "(0xAB :: byte) AND 0xf = 0xB" by simp_all
  have "sent_nibbles all_low [] (lcd_send_byte (busy_device 1) 1 0xAB []) =
      Some [(True, 0xA), (True, 0xB)]"
    using lcd_send_byte_high_nibble_first [of all_low "[]" "busy_device 1" 1 "0xAB", THEN conjunct1]
    unfolding if_P [OF e] n by simp
  moreover have "lcd_send_byte idle_device 1 0xAB [] =
     Some ([Output_bit LCD_RS_PIN False] @ read_ops 0 @
       [Output_bit LCD_RS_PIN True, Delay_cycles 1, Output_bit LCD_RW_PIN False, Delay_cycles 1,
        Output_bit LCD_ENABLE_PIN False] @ send_nibble_ops 0xA @ send_nibble_ops 0xB)"
    using lcd_send_byte_high_nibble_first [of all_low "[]" idle_device 1 "0xAB", THEN conjunct2]
    unfolding n by (simp add: idle_busy_wait)
  ultimately show ?thesis by (rule conjI)
qed

text \<open>
  C8. The loop has no bound. \<^verbatim>\<open>lcd_send_byte\<close> returns exactly when one of the
  successive reads of the command register finds bit 7 clear, and it returns after
  that read, however many reads came before; \<^verbatim>\<open>lcd_getc\<close> returns exactly when
  its \<^verbatim>\<open>lcd_gotoxy\<close> returns and one of the reads of its own loop finds bit 7
  clear. Against a display that always holds data line 7 high, neither returns.
\<close>

theorem busy_wait_has_no_timeout:
  "(lcd_send_byte D address n tr \<noteq> None) =
      (\<exists>k. \<not> busy_at D k (tr @ [Output_bit LCD_RS_PIN False])) \<and>
   (lcd_getc D x y tr \<noteq> None) =
      (\<exists>t. lcd_gotoxy D x y tr = Some t \<and> (\<exists>k. \<not> busy_at D k t)) \<and>
   ((\<forall>j<k. busy_at D j (tr @ [Output_bit LCD_RS_PIN False])) \<and>
     \<not> busy_at D k (tr @ [Output_bit LCD_RS_PIN False]) \<longrightarrow>
    lcd_send_byte D address n tr =
      Some (polls D (Suc k) (tr @ [Output_bit LCD_RS_PIN False]) @ transfer_ops address n)) \<and>
   ((\<forall>t. D t LCD_DATA7) \<longrightarrow>
      lcd_send_byte D address n tr = None \<and> lcd_getc D x y tr = None)"
proof -
  have "lcd_send_byte D address n tr =
      Some (polls D (Suc k) (tr @ [Output_bit LCD_RS_PIN False]) @ transfer_ops address n)"
    if "\<forall>j<k. busy_at D j (tr @ [Output_bit LCD_RS_PIN False])"
      and "\<not> busy_at D k (tr @ [Output_bit LCD_RS_PIN False])"
    using busy_wait_complete [OF that] by (simp add: lcd_send_byte_eq)
  moreover have "lcd_send_byte D address n tr = None \<and> lcd_getc D x y tr = None"
    if "\<forall>t. D t LCD_DATA7"
  proof -
    have "busy_wait D t = None" for t using that by (simp add: busy_wait_stuck)
    then show ?thesis
      by (simp add: lcd_send_byte_eq lcd_getc_def lcd_gotoxy_eq)
  qed
  ultimately show ?thesis
    using lcd_send_byte_returns_iff [of D address n tr] lcd_getc_returns_iff [of D x y tr]
    by blast
qed

theorem busy_wait_has_no_timeout_witness:
  "lcd_send_byte stuck_device 1 0x41 [] = None \<and> lcd_getc stuck_device 1 1 [] = None \<and>
   lcd_send_byte idle_device 1 0x41 [] \<noteq> None"
proof -
  have s: "\<forall>t. stuck_device t LCD_DATA7" by (simp add: stuck_device_def)
  have i: "\<not> busy_at idle_device 0 ([] @ [Output_bit LCD_RS_PIN False])"
    by (simp add: busy_at_def idle_read_byte)
  note a = busy_wait_has_no_timeout [of stuck_device 1 "0x41" "[]" 1 1 0]
  note b = busy_wait_has_no_timeout [of idle_device 1 "0x41" "[]" 1 1 0]
  from a s have "lcd_send_byte stuck_device 1 0x41 [] = None \<and> lcd_getc stuck_device 1 1 [] = None"
    by blast
  moreover from b i have "lcd_send_byte idle_device 1 0x41 [] \<noteq> None"
    by blast
  ultimately show ?thesis by blast
qed

text \<open>
  C9. \<^verbatim>\<open>lcd_gotoxy\<close> accepts every \<open>x\<close> and \<open>y\<close>: it fails to return only when
  its busy-wait never ends, and otherwise it has sent the single command byte
  \<open>0x80 | address\<close>, where the address is 0 for row 1 and 0x40 for every other row,
  plus \<open>x - 1\<close> modulo 256. For column 0 of row 1 the byte is \<open>0x80 | 0xFF\<close>.
\<close>

theorem lcd_gotoxy_accepts_every_input:
  "sent_bytes L tr (lcd_gotoxy D x y tr) =
      map_option (\<lambda>t. [(False, 0x80 OR ((if y = 1 then 0 else 0x40) + x - 1))])
        (busy_wait D (tr @ [Output_bit LCD_RS_PIN False])) \<and>
   (lcd_gotoxy D x y tr = None) = (busy_wait D (tr @ [Output_bit LCD_RS_PIN False]) = None) \<and>
   unat ((if y = 1 then 0 else 0x40) + x - 1 :: byte) =
     ((if y = 1 then 0 else 0x40) + unat x + 255) mod 256 \<and>
   sent_bytes all_low [] (lcd_gotoxy idle_device 0 1 []) = Some [(False, 0x80 OR 0xFF)]"
proof -
  have "sent_bytes L tr (lcd_gotoxy D x y tr) =
      map_option (\<lambda>t. [(False, 0x80 OR ((if y = 1 then 0 else 0x40) + x - 1))])
        (busy_wait D (tr @ [Output_bit LCD_RS_PIN False]))" for L tr D x y
    unfolding lcd_gotoxy_eq by (simp add: sent_bytes_send_byte)
  note g = this
  have "(lcd_gotoxy D x y tr = None) = (busy_wait D (tr @ [Output_bit LCD_RS_PIN False]) = None)"
    by (simp add: lcd_gotoxy_eq lcd_send_byte_eq split: option.splits)
  moreover have "unat ((if y = 1 then 0 else 0x40) + x - 1 :: byte) =
     ((if y = 1 then 0 else 0x40) + unat x + 255) mod 256"
    by (rule unat_gotoxy_address)
  moreover have "sent_bytes all_low [] (lcd_gotoxy idle_device 0 1 []) = Some [(False, 0x80 OR 0xFF)]"
    by (simp add: g idle_busy_wait)
  ultimately show ?thesis using g by simp
qed

text \<open>
  C10. \<^verbatim>\<open>QUET_THE\<close> returns 1 exactly when the bytes of \<^verbatim>\<open>UID\<close> at indices 0
  to 3 equal those of \<^verbatim>\<open>DATA\<close>, index by index, and leaves the same value in
  \<^verbatim>\<open>THE_1\<close>. The bytes of \<^verbatim>\<open>UID\<close> at indices 4 and 5 do not matter: two
  identifiers that differ only there give the same result.
\<close>

theorem QUET_THE_compares_four_bytes:
  "fst (QUET_THE DATA UID THE_1) =
      (UID ! 0 = DATA ! 0 \<and> UID ! 1 = DATA ! 1 \<and> UID ! 2 = DATA ! 2 \<and> UID ! 3 = DATA ! 3) \<and>
   snd (QUET_THE DATA UID THE_1) = fst (QUET_THE DATA UID THE_1) \<and>
   QUET_THE DATA (UID[4 := a, 5 := b]) THE_1 = QUET_THE DATA UID THE_1 \<and>
   QUET_THE DATA_TRUNG [0xD3, 0x4D, 0xFC, 0x27, 0x11, 0x22] False = (True, True) \<and>
   QUET_THE DATA_TRUNG [0xD3, 0x4D, 0xFC, 0x27, 0x33, 0x44] False = (True, True) \<and>
   QUET_THE DATA_TRUNG [0xD3, 0x4D, 0xFC, 0x28, 0x11, 0x22] True = (False, False)"
  by (simp add: QUET_THE_def Let_def QUET_THE_loop_0 DATA_TRUNG_def del: QUET_THE_loop.simps)

end
